theory Spec2Isabelle
  imports Main "HOL-Library.Sublist" "HOL-Library.Char_ord" "HOL-Library.List_Lexorder"
begin

section \<open>Values, strings and errors\<close>

text \<open>
  The profile document of \<^verbatim>\<open>main.py\<close> is whatever \<^verbatim>\<open>json.load\<close> returned: a tree of
  dicts, lists and scalars. A dict is kept as the list of its items in iteration
  order (Python dicts iterate in insertion order); its keys are strings, as JSON
  object keys always are. Numbers are scalars that the code never inspects.
\<close>

datatype json =
    JNull
  | JBool bool
  | JNum int
  | JStr string
  | JList "json list"
  | JDict "(string \<times> json) list"

text \<open>The exceptions the modelled code can raise.\<close>

datatype error = AttributeError | TypeError | KeyError | RecursionError

text \<open>
  \<^verbatim>\<open>str.lower()\<close> on ASCII text: the letters A..Z go to a..z, every other character
  stays. Strings are byte lists here, so the model covers ASCII input.
\<close>

definition lower_char :: "char \<Rightarrow> char" where
  "lower_char c =
     (case map_of (zip ''ABCDEFGHIJKLMNOPQRSTUVWXYZ'' ''abcdefghijklmnopqrstuvwxyz'') c of
        Some d \<Rightarrow> d
      | None \<Rightarrow> c)"

definition lower :: "string \<Rightarrow> string" where
  "lower s = map lower_char s"

text \<open>
  \<^verbatim>\<open>str.strip()\<close>: the ASCII characters for which \<^verbatim>\<open>str.isspace\<close> holds are tab,
  line feed, vertical tab, form feed, carriage return, the four separators
  0x1C..0x1F and the space.
\<close>

definition is_space :: "char \<Rightarrow> bool" where
  "is_space c = (c \<in> set [CHR 0x09, CHR 0x0A, CHR 0x0B, CHR 0x0C, CHR 0x0D,
                           CHR 0x1C, CHR 0x1D, CHR 0x1E, CHR 0x1F, CHR '' ''])"

definition strip :: "string \<Rightarrow> string" where
  "strip s = rev (dropWhile is_space (rev (dropWhile is_space s)))"

text \<open>
  \<^verbatim>\<open>s.replace(old, new)\<close>: a left-to-right scan that replaces each non-overlapping
  occurrence of \<open>old\<close>. With an empty \<open>old\<close> Python puts \<open>new\<close> before every character
  and at the end.
\<close>

function replace :: "string \<Rightarrow> string \<Rightarrow> string \<Rightarrow> string" where
  "replace old new s =
     (if old = [] then new @ concat (map (\<lambda>c. c # new) s)
      else if prefix old s then new @ replace old new (drop (length old) s)
      else (case s of [] \<Rightarrow> [] | c # cs \<Rightarrow> c # replace old new cs))"
  by pat_completeness auto
termination
  by (relation "measure (\<lambda>(old, new, s). length s)") (auto simp: prefix_def)

declare replace.simps [simp del]

text \<open>\<^verbatim>\<open>pat in s\<close> on strings: \<open>pat\<close> occurs as a contiguous substring of \<open>s\<close>.\<close>

fun contains :: "string \<Rightarrow> string \<Rightarrow> bool" where
  "contains pat [] = (pat = [])"
| "contains pat (c # cs) = (prefix pat (c # cs) \<or> contains pat cs)"

section \<open>Profile extraction\<close>

text \<open>
  \<^verbatim>\<open>a.lower().replace(" allergy", "").strip()\<close> and \<^verbatim>\<open>p.lower()\<close>, the two
  generator bodies of \<^verbatim>\<open>extract_allergies_preferences\<close>.
\<close>

definition clean_allergy :: "string \<Rightarrow> string" where
  "clean_allergy a = strip (replace '' allergy'' '''' (lower a))"

text \<open>
  \<^verbatim>\<open>target.update(f(x) for x in v)\<close> where \<open>f\<close> starts with \<^verbatim>\<open>x.lower()\<close>: an element
  that is not a string has no attribute \<^verbatim>\<open>lower\<close>, and the exception leaves the
  function.
\<close>

fun update_from :: "(string \<Rightarrow> string) \<Rightarrow> json list \<Rightarrow> string set \<Rightarrow> error + string set" where
  "update_from f [] acc = Inr acc"
| "update_from f (JStr s # xs) acc = update_from f xs (insert (f s) acc)"
| "update_from f (_ # xs) acc = Inl AttributeError"

text \<open>
  The two guarded updates of one dict item \<open>(k, v)\<close>, on the pair of sets
  \<open>(allergies, preferences)\<close> that the closure \<^verbatim>\<open>recurse\<close> mutates.
\<close>

definition visit_item :: "string \<Rightarrow> json \<Rightarrow> string set \<times> string set \<Rightarrow> error + string set \<times> string set" where
  "visit_item k v st =
     (case st of (allergies, preferences) \<Rightarrow>
        (case (if lower k = ''allergies'' then
                 (case v of JList xs \<Rightarrow> update_from clean_allergy xs allergies | _ \<Rightarrow> Inr allergies)
               else Inr allergies) of
           Inl e \<Rightarrow> Inl e
         | Inr allergies' \<Rightarrow>
             (case (if lower k = ''preferences'' then
                      (case v of JList xs \<Rightarrow> update_from lower xs preferences | _ \<Rightarrow> Inr preferences)
                    else Inr preferences) of
                Inl e \<Rightarrow> Inl e
              | Inr preferences' \<Rightarrow> Inr (allergies', preferences'))))"

text \<open>
  The closure \<^verbatim>\<open>recurse\<close>, threading the pair of sets through the traversal. This
  definition does not count the call depth: it is what the closure computes as long
  as the interpreter's recursion limit is not reached. The version that counts it
  follows below (\<open>recurse_within\<close>).
\<close>

fun recurse :: "json \<Rightarrow> string set \<times> string set \<Rightarrow> error + string set \<times> string set"
  and recurse_items :: "(string \<times> json) list \<Rightarrow> string set \<times> string set \<Rightarrow> error + string set \<times> string set"
  and recurse_list :: "json list \<Rightarrow> string set \<times> string set \<Rightarrow> error + string set \<times> string set"
where
  "recurse (JDict kvs) st = recurse_items kvs st"
| "recurse (JList xs) st = recurse_list xs st"
| "recurse JNull st = Inr st"
| "recurse (JBool b) st = Inr st"
| "recurse (JNum n) st = Inr st"
| "recurse (JStr s) st = Inr st"
| "recurse_items [] st = Inr st"
| "recurse_items ((k, v) # kvs) st =
     (case visit_item k v st of
        Inl e \<Rightarrow> Inl e
      | Inr st1 \<Rightarrow>
          (case recurse v st1 of
             Inl e \<Rightarrow> Inl e
           | Inr st2 \<Rightarrow> recurse_items kvs st2))"
| "recurse_list [] st = Inr st"
| "recurse_list (x # xs) st =
     (case recurse x st of
        Inl e \<Rightarrow> Inl e
      | Inr st1 \<Rightarrow> recurse_list xs st1)"

definition extract_allergies_preferences :: "json \<Rightarrow> error + string set \<times> string set" where
  "extract_allergies_preferences profile = recurse profile ({}, {})"

subsection \<open>The call depth of the traversal\<close>

text \<open>
  \<^verbatim>\<open>recurse\<close> calls itself once per nesting level, and Python raises
  \<^verbatim>\<open>RecursionError\<close> when a call would exceed the interpreter's recursion limit.
  \<open>recurse\<close> above leaves the call depth out; \<open>recurse_within frames\<close> counts it.
  \<open>frames\<close> is the number of Python frames that can still be entered when
  \<^verbatim>\<open>recurse(obj)\<close> is called: the call itself takes one, and so does the generator
  expression that an \<^verbatim>\<open>update\<close> consumes.
\<close>

definition update_within ::
  "nat \<Rightarrow> (string \<Rightarrow> string) \<Rightarrow> json list \<Rightarrow> string set \<Rightarrow> error + string set" where
  "update_within left f xs acc = (if left = 0 then Inl RecursionError else update_from f xs acc)"

definition visit_item_within ::
  "nat \<Rightarrow> string \<Rightarrow> json \<Rightarrow> string set \<times> string set \<Rightarrow> error + string set \<times> string set" where
  "visit_item_within left k v st =
     (case st of (allergies, preferences) \<Rightarrow>
        (case (if lower k = ''allergies'' then
                 (case v of JList xs \<Rightarrow> update_within left clean_allergy xs allergies
                          | _ \<Rightarrow> Inr allergies)
               else Inr allergies) of
           Inl e \<Rightarrow> Inl e
         | Inr allergies' \<Rightarrow>
             (case (if lower k = ''preferences'' then
                      (case v of JList xs \<Rightarrow> update_within left lower xs preferences
                               | _ \<Rightarrow> Inr preferences)
                    else Inr preferences) of
                Inl e \<Rightarrow> Inl e
              | Inr preferences' \<Rightarrow> Inr (allergies', preferences'))))"

fun recurse_within :: "nat \<Rightarrow> json \<Rightarrow> string set \<times> string set \<Rightarrow> error + string set \<times> string set"
  and recurse_items_within ::
    "nat \<Rightarrow> (string \<times> json) list \<Rightarrow> string set \<times> string set \<Rightarrow> error + string set \<times> string set"
  and recurse_list_within ::
    "nat \<Rightarrow> json list \<Rightarrow> string set \<times> string set \<Rightarrow> error + string set \<times> string set"
where
  "recurse_within frames (JDict kvs) st =
     (if frames = 0 then Inl RecursionError else recurse_items_within (frames - 1) kvs st)"
| "recurse_within frames (JList xs) st =
     (if frames = 0 then Inl RecursionError else recurse_list_within (frames - 1) xs st)"
| "recurse_within frames JNull st = (if frames = 0 then Inl RecursionError else Inr st)"
| "recurse_within frames (JBool b) st = (if frames = 0 then Inl RecursionError else Inr st)"
| "recurse_within frames (JNum n) st = (if frames = 0 then Inl RecursionError else Inr st)"
| "recurse_within frames (JStr s) st = (if frames = 0 then Inl RecursionError else Inr st)"
| "recurse_items_within left [] st = Inr st"
| "recurse_items_within left ((k, v) # kvs) st =
     (case visit_item_within left k v st of
        Inl e \<Rightarrow> Inl e
      | Inr st1 \<Rightarrow>
          (case recurse_within left v st1 of
             Inl e \<Rightarrow> Inl e
           | Inr st2 \<Rightarrow> recurse_items_within left kvs st2))"
| "recurse_list_within left [] st = Inr st"
| "recurse_list_within left (x # xs) st =
     (case recurse_within left x st of
        Inl e \<Rightarrow> Inl e
      | Inr st1 \<Rightarrow> recurse_list_within left xs st1)"

definition extract_within :: "nat \<Rightarrow> json \<Rightarrow> error + string set \<times> string set" where
  "extract_within frames profile = recurse_within frames profile ({}, {})"

text \<open>
  The nesting depth of a document, which is the number of frames its traversal
  enters: one for a scalar or an empty container, one more than its deepest entry
  for any other container.
\<close>

fun depth :: "json \<Rightarrow> nat"
  and depth_items :: "(string \<times> json) list \<Rightarrow> nat"
  and depth_list :: "json list \<Rightarrow> nat"
where
  "depth (JDict kvs) = Suc (depth_items kvs)"
| "depth (JList xs) = Suc (depth_list xs)"
| "depth JNull = Suc 0"
| "depth (JBool b) = Suc 0"
| "depth (JNum n) = Suc 0"
| "depth (JStr s) = Suc 0"
| "depth_items [] = 0"
| "depth_items ((k, v) # kvs) = max (depth v) (depth_items kvs)"
| "depth_list [] = 0"
| "depth_list (x # xs) = max (depth x) (depth_list xs)"

subsection \<open>What the extraction is meant to collect\<close>

text \<open>
  \<open>elements v\<close> are the elements of \<open>v\<close> when it is a list (none otherwise), and
  \<open>listed key d\<close> the elements of every list that sits under a key equal to \<open>key\<close>
  after lower-casing, at any nesting depth of the document, in traversal order.
\<close>

fun elements :: "json \<Rightarrow> json list" where
  "elements (JList xs) = xs"
| "elements _ = []"

fun listed :: "string \<Rightarrow> json \<Rightarrow> json list"
  and listed_items :: "string \<Rightarrow> (string \<times> json) list \<Rightarrow> json list"
  and listed_list :: "string \<Rightarrow> json list \<Rightarrow> json list"
where
  "listed key (JDict kvs) = listed_items key kvs"
| "listed key (JList xs) = listed_list key xs"
| "listed key JNull = []"
| "listed key (JBool b) = []"
| "listed key (JNum n) = []"
| "listed key (JStr s) = []"
| "listed_items key [] = []"
| "listed_items key ((k, v) # kvs) =
     (if lower k = key then elements v else []) @ listed key v @ listed_items key kvs"
| "listed_list key [] = []"
| "listed_list key (x # xs) = listed key x @ listed_list key xs"

fun is_str :: "json \<Rightarrow> bool" where
  "is_str (JStr s) = True"
| "is_str _ = False"

fun is_list :: "json \<Rightarrow> bool" where
  "is_list (JList xs) = True"
| "is_list _ = False"

fun strings_of :: "json list \<Rightarrow> string list" where
  "strings_of [] = []"
| "strings_of (JStr s # xs) = s # strings_of xs"
| "strings_of (_ # xs) = strings_of xs"

text \<open>
  The same notion as a relation: \<open>field_at d k v\<close> holds when the document \<open>d\<close> has,
  at some depth, a dict item with key \<open>k\<close> and value \<open>v\<close>.
\<close>

inductive field_at :: "json \<Rightarrow> string \<Rightarrow> json \<Rightarrow> bool" where
  here: "(k, v) \<in> set kvs \<Longrightarrow> field_at (JDict kvs) k v"
| in_dict: "(k', d) \<in> set kvs \<Longrightarrow> field_at d k v \<Longrightarrow> field_at (JDict kvs) k v"
| in_list: "d \<in> set xs \<Longrightarrow> field_at d k v \<Longrightarrow> field_at (JList xs) k v"




subsection \<open>Wrapping and reordering a document\<close>

text \<open>
  One more layer around a document: the one-element list \<^verbatim>\<open>[d]\<close> or the one-item
  dict \<^verbatim>\<open>{k: d}\<close>. \<open>wrap\<close> applies a stack of layers, the head outermost.
\<close>

datatype layer = InList | InDict string

fun wrap :: "layer list \<Rightarrow> json \<Rightarrow> json" where
  "wrap [] d = d"
| "wrap (InList # ls) d = JList [wrap ls d]"
| "wrap (InDict k # ls) d = JDict [(k, wrap ls d)]"

text \<open>
  A layer adds depth only, and no field of its own, unless it is a dict layer whose
  key is one of the two field names and whose content is a list: that layer would
  be read as an allergy or preference list itself.
\<close>

fun neutral :: "layer list \<Rightarrow> json \<Rightarrow> bool" where
  "neutral [] d = True"
| "neutral (InList # ls) d = neutral ls d"
| "neutral (InDict k # ls) d =
     (neutral ls d \<and>
      (lower k \<noteq> ''allergies'' \<and> lower k \<noteq> ''preferences'' \<or> \<not> is_list (wrap ls d)))"

text \<open>
  \<open>shuffled d d'\<close>: \<open>d'\<close> is \<open>d\<close> with the entries of some of its containers, at any
  depth, put in another order (generated by swaps of neighbours).
\<close>

inductive shuffled :: "json \<Rightarrow> json \<Rightarrow> bool" where
  same: "shuffled d d"
| step: "shuffled d d' \<Longrightarrow> shuffled d' d'' \<Longrightarrow> shuffled d d''"
| swap_list: "shuffled (JList (xs @ a # b # ys)) (JList (xs @ b # a # ys))"
| swap_dict: "shuffled (JDict (kvs @ p # q # kvs')) (JDict (kvs @ q # p # kvs'))"
| inside_list: "shuffled d d' \<Longrightarrow> shuffled (JList (xs @ d # ys)) (JList (xs @ d' # ys))"
| inside_dict: "shuffled d d' \<Longrightarrow> shuffled (JDict (kvs @ (k, d) # kvs')) (JDict (kvs @ (k, d') # kvs'))"

section \<open>Cart processing\<close>

text \<open>
  The static tables that \<^verbatim>\<open>process_cart\<close> loads from \<^verbatim>\<open>utils/*.json\<close>. A product's
  \<^verbatim>\<open>allergens\<close> key may be absent (\<^verbatim>\<open>product.get("allergens", [])\<close>). One entry of
  the substitution table has the keys \<^verbatim>\<open>safeAlt\<close> and \<^verbatim>\<open>reason\<close>; the latter is the
  field \<open>alt_reason\<close> here, since the cart entry has a \<open>reason\<close> of its own.
\<close>

record product =
  name :: string
  sku :: string
  allergens :: "string list option"

record substitution =
  safeAlt :: string
  alt_reason :: string

record tables =
  products_list :: "product list"
  allergen_dict :: "(string \<times> string list) list"
  substitutions :: "string \<rightharpoonup> substitution"

text \<open>
  The two calls into the external library \<^verbatim>\<open>fuzzywuzzy\<close>, taken as parameters:
  \<^verbatim>\<open>fuzz.ratio(a, b)\<close>, a score from 0 to 100, and
  \<^verbatim>\<open>process.extractOne(query, choices)\<close>, the best choice with its score, or
  \<^verbatim>\<open>None\<close> when there is no choice to return.
\<close>

record fuzzy =
  ratio :: "string \<Rightarrow> string \<Rightarrow> nat"
  extractOne :: "string \<Rightarrow> string list \<Rightarrow> (string \<times> nat) option"

datatype status = Safe | Warn | Risk | Substituted

record cart_entry =
  original :: string
  status :: status
  safeAlternative :: "string option"
  reason :: string

text \<open>
  \<^verbatim>\<open>products = {p["name"].lower(): p for p in products_list}\<close>: a later product with the
  same lower-cased name replaces an earlier one.
\<close>

definition products :: "product list \<Rightarrow> (string \<rightharpoonup> product)" where
  "products pl = map_of (rev (map (\<lambda>p. (lower (name p), p)) pl))"

definition product_names :: "product list \<Rightarrow> string list" where
  "product_names pl = map (\<lambda>p. lower (name p)) pl"

text \<open>
  Lines 227 to 232: the exact lookup, then the fuzzy one. Unpacking the \<^verbatim>\<open>None\<close> that
  \<^verbatim>\<open>extractOne\<close> returns for no choice raises \<^verbatim>\<open>TypeError\<close>.
\<close>

definition resolve :: "fuzzy \<Rightarrow> product list \<Rightarrow> string \<Rightarrow> error + product option" where
  "resolve fz pl item_lc =
     (case products pl item_lc of
        Some p \<Rightarrow> Inr (Some p)
      | None \<Rightarrow>
          (case extractOne fz item_lc (product_names pl) of
             None \<Rightarrow> Inl TypeError
           | Some (best_match, score) \<Rightarrow>
               if score > 80 then Inr (products pl best_match) else Inr None))"

text \<open>The condition of lines 243 to 247 for one allergy and one product allergen.\<close>

definition risk_match :: "fuzzy \<Rightarrow> (string \<times> string list) list \<Rightarrow> string \<Rightarrow> string \<Rightarrow> bool" where
  "risk_match fz ad allergy allergen =
     (allergy = lower allergen
      \<or> list_ex (\<lambda>(k, v). allergy = k \<and> lower allergen \<in> set v) ad
      \<or> ratio fz allergy (lower allergen) > 80)"

definition risk_reason :: "string \<Rightarrow> string \<Rightarrow> string" where
  "risk_reason allergen allergy =
     ''Contains '' @ allergen @ '', which matches your allergy or restriction: '' @ allergy @ ''.''"

text \<open>
  The nested loops of lines 240 to 253: the inner one stops at the first allergen
  that matches, the outer one at the first allergy that has such an allergen. The
  result is the reason that was set, or \<open>None\<close> when nothing was flagged.
\<close>

fun scan_allergens :: "fuzzy \<Rightarrow> (string \<times> string list) list \<Rightarrow> string \<Rightarrow> string list \<Rightarrow> string option" where
  "scan_allergens fz ad allergy [] = None"
| "scan_allergens fz ad allergy (allergen # rest) =
     (if risk_match fz ad allergy allergen then Some (risk_reason allergen allergy)
      else scan_allergens fz ad allergy rest)"

fun scan_allergies :: "fuzzy \<Rightarrow> (string \<times> string list) list \<Rightarrow> string list \<Rightarrow> string list \<Rightarrow> string option" where
  "scan_allergies fz ad [] gs = None"
| "scan_allergies fz ad (allergy # rest) gs =
     (case scan_allergens fz ad allergy gs of
        Some r \<Rightarrow> Some r
      | None \<Rightarrow> scan_allergies fz ad rest gs)"

text \<open>Line 257, for one preference; and the loop over the preferences around it.\<close>

definition pref_hit :: "string \<Rightarrow> string list \<Rightarrow> string \<Rightarrow> bool" where
  "pref_hit pref gs item_lc =
     list_ex (\<lambda>allergen. contains pref (lower allergen) \<or> contains pref item_lc) (gs @ [item_lc])"

definition warn_reason :: "string \<Rightarrow> string" where
  "warn_reason item = ''You said you dislike or want to avoid '' @ item @ ''.''"

definition allergens_of :: "product \<Rightarrow> string list" where
  "allergens_of p = (case allergens p of None \<Rightarrow> [] | Some gs \<Rightarrow> gs)"

text \<open>
  The body of the loop over the shopping list (lines 226 to 272) for one item.
  \<open>allergies\<close> and \<open>preferences\<close> are the two sets in the order in which the
  \<^verbatim>\<open>for\<close> loops iterate them.
\<close>

definition classify_item ::
  "fuzzy \<Rightarrow> tables \<Rightarrow> string list \<Rightarrow> string list \<Rightarrow> string \<Rightarrow> error + cart_entry" where
  "classify_item fz tb allergies preferences item =
     (let item_lc = lower item in
      case resolve fz (products_list tb) item_lc of
        Inl e \<Rightarrow> Inl e
      | Inr resolved \<Rightarrow>
          let risk = (case resolved of
                        None \<Rightarrow> None
                      | Some p \<Rightarrow> scan_allergies fz (allergen_dict tb) allergies (allergens_of p));
              flagged = (risk \<noteq> None);
              warned = (case resolved of
                          None \<Rightarrow> False
                        | Some p \<Rightarrow> \<not> flagged \<and> list_ex (\<lambda>pref. pref_hit pref (allergens_of p) item_lc) preferences);
              entry = (case risk of
                         Some r \<Rightarrow> \<lparr>original = item, status = Risk, safeAlternative = None, reason = r\<rparr>
                       | None \<Rightarrow>
                           if warned
                           then \<lparr>original = item, status = Warn, safeAlternative = None, reason = warn_reason item\<rparr>
                           else \<lparr>original = item, status = Safe, safeAlternative = None, reason = ''''\<rparr>)
          in (case (if flagged then substitutions tb item_lc else None) of
                Some s \<Rightarrow> Inr (entry\<lparr>status := Substituted, safeAlternative := Some (safeAlt s), reason := alt_reason s\<rparr>)
              | None \<Rightarrow> Inr entry))"

text \<open>
  Lines 201 to 209: a dict with a \<^verbatim>\<open>name\<close> key stands for that value, a string for
  itself, anything else is skipped.
\<close>

fun normalize_list :: "json list \<Rightarrow> json list" where
  "normalize_list [] = []"
| "normalize_list (JDict kvs # rest) =
     (case map_of kvs ''name'' of
        Some v \<Rightarrow> v # normalize_list rest
      | None \<Rightarrow> normalize_list rest)"
| "normalize_list (JStr s # rest) = JStr s # normalize_list rest"
| "normalize_list (_ # rest) = normalize_list rest"

text \<open>
  The loop over the normalised list. A \<^verbatim>\<open>name\<close> that is not a string fails at
  \<^verbatim>\<open>item.lower()\<close>; any exception ends the whole request.
\<close>

fun classify_all ::
  "fuzzy \<Rightarrow> tables \<Rightarrow> string list \<Rightarrow> string list \<Rightarrow> json list \<Rightarrow> error + cart_entry list" where
  "classify_all fz tb allergies preferences [] = Inr []"
| "classify_all fz tb allergies preferences (JStr item # rest) =
     (case classify_item fz tb allergies preferences item of
        Inl e \<Rightarrow> Inl e
      | Inr entry \<Rightarrow>
          (case classify_all fz tb allergies preferences rest of
             Inl e \<Rightarrow> Inl e
           | Inr cart \<Rightarrow> Inr (entry # cart)))"
| "classify_all fz tb allergies preferences (_ # rest) = Inl AttributeError"

text \<open>
  \<^verbatim>\<open>process_cart\<close> from the request's \<^verbatim>\<open>shoppingList\<close> and \<^verbatim>\<open>profile\<close> to the cart it
  returns. Python does not fix the order in which a \<^verbatim>\<open>set\<close> of strings is iterated
  (it follows the strings' hashes, which are salted per interpreter process), so
  that order is the parameter \<open>iter\<close>: the list in which a set is iterated.
  \<open>frames\<close> is the number of frames left for the extraction.
\<close>

definition process_cart ::
  "(string set \<Rightarrow> string list) \<Rightarrow> nat \<Rightarrow> fuzzy \<Rightarrow> tables \<Rightarrow> json list \<Rightarrow> json
     \<Rightarrow> error + cart_entry list" where
  "process_cart iter frames fz tb shopping_list profile =
     (let normalized_list = normalize_list shopping_list in
      case extract_within frames profile of
        Inl e \<Rightarrow> Inl e
      | Inr (allergies, preferences) \<Rightarrow>
          classify_all fz tb (iter allergies) (iter preferences) normalized_list)"

text \<open>An iteration order is any listing of exactly the elements of the set.\<close>

definition iteration_order :: "(string set \<Rightarrow> string list) \<Rightarrow> bool" where
  "iteration_order iter = (\<forall>S. finite S \<longrightarrow> set (iter S) = S)"

text \<open>
  What it means for an item to have been flagged, said without the loops: the item
  resolved to a product, and some allergy in the profile matches some allergen of
  that product.
\<close>

definition flagged :: "fuzzy \<Rightarrow> tables \<Rightarrow> string list \<Rightarrow> product option \<Rightarrow> bool" where
  "flagged fz tb allergies resolved =
     (case resolved of
        None \<Rightarrow> False
      | Some p \<Rightarrow>
          list_ex (\<lambda>allergy. list_ex (risk_match fz (allergen_dict tb) allergy) (allergens_of p)) allergies)"

text \<open>
  The three ways in which an allergy matches a product allergen, in the words of
  the specification: the two strings are equal, the allergy is a key of the synonym
  table whose list contains the allergen, or their fuzzy similarity exceeds 80.
  (The allergen is compared in lower case.)
\<close>

definition spec_match :: "fuzzy \<Rightarrow> (string \<times> string list) list \<Rightarrow> string \<Rightarrow> string \<Rightarrow> bool" where
  "spec_match fz ad allergy allergen =
     (allergy = lower allergen
      \<or> (\<exists>(k, v)\<in>set ad. k = allergy \<and> lower allergen \<in> set v)
      \<or> 80 < ratio fz allergy (lower allergen))"

text \<open>
  \<open>first_match fz ad as gs i j\<close>: the allergy at position \<open>i\<close> of \<open>as\<close> and the
  allergen at position \<open>j\<close> of \<open>gs\<close> are the first pair that matches, allergies
  first and allergens within each allergy. \<open>names_first_match\<close>: the text \<open>r\<close> is
  the reason written for that pair.
\<close>

definition first_match ::
  "fuzzy \<Rightarrow> (string \<times> string list) list \<Rightarrow> string list \<Rightarrow> string list \<Rightarrow> nat \<Rightarrow> nat \<Rightarrow> bool" where
  "first_match fz ad as gs i j \<longleftrightarrow>
     i < length as \<and> j < length gs
     \<and> spec_match fz ad (as ! i) (gs ! j)
     \<and> (\<forall>i'<i. \<forall>j'<length gs. \<not> spec_match fz ad (as ! i') (gs ! j'))
     \<and> (\<forall>j'<j. \<not> spec_match fz ad (as ! i) (gs ! j'))"

definition names_first_match ::
  "fuzzy \<Rightarrow> (string \<times> string list) list \<Rightarrow> string list \<Rightarrow> string list \<Rightarrow> string \<Rightarrow> bool" where
  "names_first_match fz ad as gs r \<longleftrightarrow>
     (\<exists>i j. first_match fz ad as gs i j \<and> r = risk_reason (gs ! j) (as ! i))"

text \<open>
  What two runs that iterate the allergy set as \<open>as\<close> and as \<open>as'\<close> have in common
  for one item: the entries agree on the name, the status and the alternative. The
  reasons agree as well unless the status is \<open>Risk\<close>; the reason of a \<open>Risk\<close> entry
  names the first matching pair of its own run, and the two reasons agree when at
  most one allergy of the profile matches an allergen of the product.
\<close>

definition agree :: "fuzzy \<Rightarrow> tables \<Rightarrow> string list \<Rightarrow> string list \<Rightarrow> cart_entry \<Rightarrow> cart_entry \<Rightarrow> bool" where
  "agree fz tb as as' e e' \<longleftrightarrow>
     original e = original e' \<and> status e = status e' \<and> safeAlternative e = safeAlternative e'
     \<and> (if status e = Risk
         then (\<exists>p. resolve fz (products_list tb) (lower (original e)) = Inr (Some p)
                 \<and> names_first_match fz (allergen_dict tb) as (allergens_of p) (reason e)
                 \<and> names_first_match fz (allergen_dict tb) as' (allergens_of p) (reason e')
                 \<and> ((\<forall>a\<in>set as. \<forall>b\<in>set as.
                        (\<exists>g\<in>set (allergens_of p). spec_match fz (allergen_dict tb) a g)
                        \<and> (\<exists>g\<in>set (allergens_of p). spec_match fz (allergen_dict tb) b g)
                        \<longrightarrow> a = b)
                     \<longrightarrow> reason e = reason e'))
         else reason e = reason e')"

text \<open>Two iteration orders of a set of strings: ascending and descending.\<close>

definition ascending :: "string set \<Rightarrow> string list" where
  "ascending S = sorted_list_of_set S"

definition descending :: "string set \<Rightarrow> string list" where
  "descending S = rev (sorted_list_of_set S)"

text \<open>
  Sample data for the evaluations below: a small catalog, synonym table and
  substitution table in the shape of the files under \<^verbatim>\<open>utils/\<close>, and a stand-in for
  the fuzzy matcher that scores 100 for equal strings and 0 otherwise. The theorems
  themselves hold for every table and every matcher.
\<close>

definition sample_fuzzy :: fuzzy where
  "sample_fuzzy =
     \<lparr>ratio = (\<lambda>a b. if a = b then 100 else 0),
      extractOne = (\<lambda>query choices.
         case choices of [] \<Rightarrow> None | c # cs \<Rightarrow> Some (c, if query = c then 100 else 0))\<rparr>"

definition sample_tables :: tables where
  "sample_tables =
     \<lparr>products_list =
        [\<lparr>name = ''Peanut Butter'', sku = ''P1'', allergens = Some [''Peanuts'']\<rparr>,
         \<lparr>name = ''Latte'', sku = ''P2'', allergens = Some [''Milk'', ''Soy'']\<rparr>,
         \<lparr>name = ''Rice'', sku = ''P3'', allergens = None\<rparr>],
      allergen_dict = [(''dairy'', [''milk'', ''cheese''])],
      substitutions =
        [''peanut butter'' \<mapsto> \<lparr>safeAlt = ''Sunflower Seed Butter'', alt_reason = ''Nut-free spread''\<rparr>]\<rparr>"

section \<open>Store selection\<close>

text \<open>
  \<^verbatim>\<open>STORES\<close> is the dict loaded from \<^verbatim>\<open>utils/stores.json\<close>, kept as its items in
  iteration order. Of a store's record only \<^verbatim>\<open>availableSKUs\<close> takes part in the
  selection.
\<close>

record store_info =
  availableSKUs :: "string list"

text \<open>
  The loop of lines 317 to 326 over \<^verbatim>\<open>STORES.items()\<close>, on the state
  \<open>(best_store, best_count, packed)\<close>, which starts as \<open>(None, -1, [])\<close>.
\<close>

definition packed_here :: "store_info \<Rightarrow> string list \<Rightarrow> string list" where
  "packed_here info cart_skus = filter (\<lambda>sku. sku \<in> set (availableSKUs info)) cart_skus"

fun best_store_loop ::
  "(string \<times> store_info) list \<Rightarrow> string list \<Rightarrow> string option \<times> int \<times> string list
     \<Rightarrow> string option \<times> int \<times> string list" where
  "best_store_loop [] cart_skus st = st"
| "best_store_loop ((store, info) # rest) cart_skus (best_store, best_count, packed) =
     (if int (length (packed_here info cart_skus)) > best_count
      then best_store_loop rest cart_skus
             (Some store, int (length (packed_here info cart_skus)), packed_here info cart_skus)
      else best_store_loop rest cart_skus (best_store, best_count, packed))"

text \<open>
  \<^verbatim>\<open>if best_store:\<close> tests the truth value of the name: \<^verbatim>\<open>None\<close> is false, and so is
  the empty string.
\<close>

definition truthy :: "string option \<Rightarrow> bool" where
  "truthy best_store = (case best_store of None \<Rightarrow> False | Some s \<Rightarrow> s \<noteq> [])"

record suggestion =
  store :: "string option"
  packed_skus :: "string list"
  missing_skus :: "string list"

text \<open>
  Lines 316 to 332 and 362 to 370 of \<^verbatim>\<open>pickup_suggestion\<close>, from the resolved
  \<^verbatim>\<open>cart_skus\<close>: the chosen store as the response reports it (\<^verbatim>\<open>store_details\<close>, or
  \<^verbatim>\<open>None\<close>), the packed SKUs and the missing SKUs. \<^verbatim>\<open>STORES[best_store]\<close> raises
  \<^verbatim>\<open>KeyError\<close> for a name that is not a key.
\<close>

definition pickup_suggestion :: "(string \<times> store_info) list \<Rightarrow> string list \<Rightarrow> error + suggestion" where
  "pickup_suggestion STORES cart_skus =
     (case best_store_loop STORES cart_skus (None, -1, []) of
        (best_store, best_count, packed) \<Rightarrow>
          if truthy best_store then
            (case map_of STORES (the best_store) of
               None \<Rightarrow> Inl KeyError
             | Some info \<Rightarrow>
                 Inr \<lparr>store = best_store, packed_skus = packed,
                      missing_skus = filter (\<lambda>sku. sku \<notin> set (availableSKUs info)) cart_skus\<rparr>)
          else Inr \<lparr>store = None, packed_skus = packed, missing_skus = cart_skus\<rparr>)"

text \<open>The number that the loop compares for one store.\<close>

definition coverage :: "(string \<times> store_info) \<Rightarrow> string list \<Rightarrow> int" where
  "coverage entry cart_skus = int (length (packed_here (snd entry) cart_skus))"

text \<open>
  Sample store maps for the evaluations below: three stores of which the second and
  the third stock both items, and a map whose only store has the empty string as
  its name.
\<close>

definition sample_stores :: "(string \<times> store_info) list" where
  "sample_stores =
     [(''Store A'', \<lparr>availableSKUs = [''P1'']\<rparr>),
      (''Store B'', \<lparr>availableSKUs = [''P1'', ''P2'']\<rparr>),
      (''Store C'', \<lparr>availableSKUs = [''P2'', ''P1'', ''P3'']\<rparr>)]"

definition unnamed_store :: "(string \<times> store_info) list" where
  "unnamed_store = [('''', \<lparr>availableSKUs = [''P1'']\<rparr>)]"

text \<open>
  The state after the loop: the first store whose coverage is maximal, with that
  coverage and the cart SKUs it stocks.
\<close>

definition selected :: "(string \<times> store_info) list \<Rightarrow> string list \<Rightarrow> nat \<Rightarrow> bool" where
  "selected xs cart_skus i \<longleftrightarrow>
     i < length xs
     \<and> best_store_loop xs cart_skus (None, -1, [])
         = (Some (fst (xs ! i)), coverage (xs ! i) cart_skus, packed_here (snd (xs ! i)) cart_skus)
     \<and> (\<forall>j<length xs. coverage (xs ! j) cart_skus \<le> coverage (xs ! i) cart_skus)
     \<and> (\<forall>j<i. coverage (xs ! j) cart_skus < coverage (xs ! i) cart_skus)"

section \<open>Auxiliary notions for the proofs\<close>

text \<open>
  \<open>absorb as ps st\<close> is the effect on the state \<open>st\<close> of updating the allergy set
  from the elements \<open>as\<close> and the preference set from the elements \<open>ps\<close>: the
  updates succeed exactly when every element is a string.
\<close>

definition absorb :: "json list \<Rightarrow> json list \<Rightarrow> string set \<times> string set \<Rightarrow> error + string set \<times> string set" where
  "absorb as ps st =
     (if list_all is_str as \<and> list_all is_str ps
      then Inr (fst st \<union> set (map clean_allergy (strings_of as)), snd st \<union> set (map lower (strings_of ps)))
      else Inl AttributeError)"

text \<open>Two element lists that no update can tell apart.\<close>

definition same_strings :: "json list \<Rightarrow> json list \<Rightarrow> bool" where
  "same_strings xs ys \<longleftrightarrow>
     list_all is_str xs = list_all is_str ys \<and> set (strings_of xs) = set (strings_of ys)"

section \<open>Properties of the profile extraction\<close>

lemma update_from_char:
  "update_from f xs acc =
     (if list_all is_str xs then Inr (acc \<union> set (map f (strings_of xs))) else Inl AttributeError)"
  by (induction f xs acc rule: update_from.induct) auto

lemma strings_of_append: "strings_of (xs @ ys) = strings_of xs @ strings_of ys"
  by (induction xs rule: strings_of.induct) auto

lemma set_strings_of: "set (strings_of xs) = {s. JStr s \<in> set xs}"
  by (induction xs rule: strings_of.induct) auto

lemma absorb_cong:
  "list_all is_str as = list_all is_str as' \<Longrightarrow> set (strings_of as) = set (strings_of as')
   \<Longrightarrow> list_all is_str ps = list_all is_str ps' \<Longrightarrow> set (strings_of ps) = set (strings_of ps')
   \<Longrightarrow> absorb as ps st = absorb as' ps' st"
  by (simp add: absorb_def)

lemma visit_item_absorb:
  "visit_item k v st =
     absorb (if lower k = ''allergies'' then (elements v) else [])
            (if lower k = ''preferences'' then (elements v) else []) st"
  by (cases st; cases v) (simp_all add: visit_item_def update_from_char absorb_def)

lemma absorb_Inl_append:
  "absorb as ps st = Inl e \<Longrightarrow> absorb (as @ as') (ps @ ps') st = Inl e"
  by (auto simp: absorb_def split: if_splits)

lemma absorb_Inr_append:
  "absorb as ps st = Inr st1 \<Longrightarrow> absorb (as @ as') (ps @ ps') st = absorb as' ps' st1"
  by (auto simp: absorb_def strings_of_append split: if_splits)

lemma absorb_Nil: "absorb [] [] st = Inr st"
  by (simp add: absorb_def)

lemma recurse_absorb:
  "recurse d st = absorb (listed ''allergies'' d) (listed ''preferences'' d) st"
  "recurse_items kvs st = absorb (listed_items ''allergies'' kvs) (listed_items ''preferences'' kvs) st"
  "recurse_list xs st = absorb (listed_list ''allergies'' xs) (listed_list ''preferences'' xs) st"
proof (induction d st and kvs st and xs st rule: recurse_recurse_items_recurse_list.induct)
  case (8 k v kvs st)
  let ?Ea = "if lower k = ''allergies'' then elements v else []"
  let ?Ep = "if lower k = ''preferences'' then elements v else []"
  let ?Ra = "listed ''allergies'' v @ listed_items ''allergies'' kvs"
  let ?Rp = "listed ''preferences'' v @ listed_items ''preferences'' kvs"
  have goal: "absorb (listed_items ''allergies'' ((k, v) # kvs)) (listed_items ''preferences'' ((k, v) # kvs)) st
                = absorb (?Ea @ ?Ra) (?Ep @ ?Rp) st"
    by simp
  show ?case
  proof (cases "visit_item k v st")
    case (Inl e)
    then have "absorb ?Ea ?Ep st = Inl e" by (simp add: visit_item_absorb)
    then have "absorb (?Ea @ ?Ra) (?Ep @ ?Rp) st = Inl e" by (rule absorb_Inl_append)
    with Inl goal show ?thesis by simp
  next
    case (Inr st1)
    then have "absorb ?Ea ?Ep st = Inr st1" by (simp add: visit_item_absorb)
    then have outer: "absorb (?Ea @ ?Ra) (?Ep @ ?Rp) st = absorb ?Ra ?Rp st1" by (rule absorb_Inr_append)
    have rv: "recurse v st1 = absorb (listed ''allergies'' v) (listed ''preferences'' v) st1"
      by (rule 8(1)[OF Inr])
    show ?thesis
    proof (cases "recurse v st1")
      case (Inl e)
      with rv have "absorb (listed ''allergies'' v) (listed ''preferences'' v) st1 = Inl e" by simp
      then have "absorb ?Ra ?Rp st1 = Inl e" by (rule absorb_Inl_append)
      with Inl Inr outer goal show ?thesis by simp
    next
      case inner: (Inr st2)
      with rv have "absorb (listed ''allergies'' v) (listed ''preferences'' v) st1 = Inr st2" by simp
      then have "absorb ?Ra ?Rp st1
                      = absorb (listed_items ''allergies'' kvs) (listed_items ''preferences'' kvs) st2"
        by (rule absorb_Inr_append)
      with inner Inr outer goal 8(2)[OF Inr inner] show ?thesis by simp
    qed
  qed
next
  case (10 x xs st)
  let ?Ra = "listed_list ''allergies'' xs"
  let ?Rp = "listed_list ''preferences'' xs"
  show ?case
  proof (cases "recurse x st")
    case (Inl e)
    with 10(1) have "absorb (listed ''allergies'' x) (listed ''preferences'' x) st = Inl e" by simp
    then have "absorb (listed ''allergies'' x @ ?Ra) (listed ''preferences'' x @ ?Rp) st = Inl e"
      by (rule absorb_Inl_append)
    with Inl show ?thesis by simp
  next
    case (Inr st1)
    with 10(1) have "absorb (listed ''allergies'' x) (listed ''preferences'' x) st = Inr st1" by simp
    then have "absorb (listed ''allergies'' x @ ?Ra) (listed ''preferences'' x @ ?Rp) st
                       = absorb ?Ra ?Rp st1"
      by (rule absorb_Inr_append)
    with Inr 10(2)[OF Inr] show ?thesis by simp
  qed
qed (simp_all add: absorb_Nil)

lemma extract_absorb:
  "extract_allergies_preferences d = absorb (listed ''allergies'' d) (listed ''preferences'' d) ({}, {})"
  by (simp add: extract_allergies_preferences_def recurse_absorb)

lemma listed_append:
  "listed_items key (kvs @ kvs') = listed_items key kvs @ listed_items key kvs'"
  "listed_list key (xs @ ys) = listed_list key xs @ listed_list key ys"
  by (induction kvs, auto) (induction xs, auto)

lemma listed_wrap:
  "neutral ls d \<Longrightarrow> key = ''allergies'' \<or> key = ''preferences'' \<Longrightarrow> listed key (wrap ls d) = listed key d"
proof (induction ls d rule: neutral.induct)
  case (3 k ls d)
  then show ?case by (cases "wrap ls d") auto
qed auto

lemma shuffled_scalar: "shuffled d d' \<Longrightarrow> is_str d \<or> is_str d' \<Longrightarrow> d = d'"
proof (induction rule: shuffled.induct)
  case (step d d' d'')
  from step.prems show ?case
  proof
    assume "is_str d"
    with step.IH(1) have "d = d'" by simp
    with \<open>is_str d\<close> step.IH(2) show ?thesis by simp
  next
    assume "is_str d''"
    with step.IH(2) have "d' = d''" by simp
    with \<open>is_str d''\<close> step.IH(1) show ?thesis by simp
  qed
qed simp_all

lemma same_strings_refl: "same_strings xs xs"
  by (simp add: same_strings_def)

lemma same_strings_trans: "same_strings xs ys \<Longrightarrow> same_strings ys zs \<Longrightarrow> same_strings xs zs"
  by (simp add: same_strings_def)

lemma same_strings_append:
  "same_strings xs xs' \<Longrightarrow> same_strings ys ys' \<Longrightarrow> same_strings (xs @ ys) (xs' @ ys')"
  by (simp add: same_strings_def strings_of_append)

lemma same_strings_swap: "same_strings (xs @ ys) (ys @ xs)"
  by (auto simp: same_strings_def strings_of_append)

lemma not_str_strings_of: "\<not> is_str x \<Longrightarrow> strings_of (x # xs) = strings_of xs"
  by (cases x) simp_all

lemma same_strings_single:
  assumes "shuffled d d'"
  shows "same_strings [d] [d']"
proof (cases "is_str d \<or> is_str d'")
  case True
  then have "d = d'" by (rule shuffled_scalar[OF assms])
  then show ?thesis by (simp add: same_strings_refl)
next
  case False
  then show ?thesis by (simp add: same_strings_def not_str_strings_of)
qed

lemma shuffled_elems: "shuffled d d' \<Longrightarrow> same_strings (elements d) (elements d')"
proof (induction rule: shuffled.induct)
  case (same d)
  show ?case by (rule same_strings_refl)
next
  case (step d d' d'')
  then show ?case by (blast intro: same_strings_trans)
next
  case (swap_list xs a b ys)
  have "same_strings ([a] @ [b]) ([b] @ [a])" by (rule same_strings_swap)
  then have "same_strings (xs @ ([a] @ [b]) @ ys) (xs @ ([b] @ [a]) @ ys)"
    by (rule same_strings_append[OF same_strings_refl same_strings_append[OF _ same_strings_refl]])
  then show ?case by simp
next
  case (swap_dict kvs p q kvs')
  show ?case by (simp add: same_strings_refl)
next
  case (inside_list d d' xs ys)
  have "same_strings (xs @ [d] @ ys) (xs @ [d'] @ ys)"
    by (rule same_strings_append[OF same_strings_refl
          same_strings_append[OF same_strings_single[OF inside_list(1)] same_strings_refl]])
  then show ?case by simp
next
  case (inside_dict d d' kvs k kvs')
  show ?case by (simp add: same_strings_refl)
qed

lemma shuffled_listed: "shuffled d d' \<Longrightarrow> same_strings (listed key d) (listed key d')"
proof (induction rule: shuffled.induct)
  case (same d)
  show ?case by (rule same_strings_refl)
next
  case (step d d' d'')
  then show ?case by (blast intro: same_strings_trans)
next
  case (swap_list xs a b ys)
  have "same_strings (listed key a @ listed key b) (listed key b @ listed key a)"
    by (rule same_strings_swap)
  then have "same_strings (listed_list key xs @ (listed key a @ listed key b) @ listed_list key ys)
                          (listed_list key xs @ (listed key b @ listed key a) @ listed_list key ys)"
    by (rule same_strings_append[OF same_strings_refl same_strings_append[OF _ same_strings_refl]])
  then show ?case by (simp add: listed_append)
next
  case (swap_dict kvs p q kvs')
  have "same_strings (listed_items key [p] @ listed_items key [q]) (listed_items key [q] @ listed_items key [p])"
    by (rule same_strings_swap)
  then have "same_strings (listed_items key kvs @ (listed_items key [p] @ listed_items key [q]) @ listed_items key kvs')
                          (listed_items key kvs @ (listed_items key [q] @ listed_items key [p]) @ listed_items key kvs')"
    by (rule same_strings_append[OF same_strings_refl same_strings_append[OF _ same_strings_refl]])
  then show ?case
    using listed_append(1)[of key kvs "p # q # kvs'"] listed_append(1)[of key kvs "q # p # kvs'"]
          listed_append(1)[of key "[p]" "q # kvs'"] listed_append(1)[of key "[q]" "p # kvs'"]
          listed_append(1)[of key "[q]" "kvs'"] listed_append(1)[of key "[p]" "kvs'"]
    by simp
next
  case (inside_list d d' xs ys)
  have "same_strings (listed_list key xs @ listed key d @ listed_list key ys)
                     (listed_list key xs @ listed key d' @ listed_list key ys)"
    by (rule same_strings_append[OF same_strings_refl
          same_strings_append[OF inside_list(2) same_strings_refl]])
  then show ?case by (simp add: listed_append)
next
  case (inside_dict d d' kvs k kvs')
  have "same_strings (if lower k = key then elements d else []) (if lower k = key then elements d' else [])"
    using shuffled_elems[OF inside_dict(1)] by (simp add: same_strings_refl)
  then have "same_strings (listed_items key kvs @ ((if lower k = key then elements d else []) @ listed key d) @ listed_items key kvs')
                          (listed_items key kvs @ ((if lower k = key then elements d' else []) @ listed key d') @ listed_items key kvs')"
    by (rule same_strings_append[OF same_strings_refl
          same_strings_append[OF same_strings_append[OF _ inside_dict(2)] same_strings_refl]])
  then show ?case by (simp add: listed_append)
qed

lemma field_at_Cons_dict: "field_at (JDict kvs) k v \<Longrightarrow> field_at (JDict (p # kvs)) k v"
  by (cases rule: field_at.cases) (auto intro: field_at.intros)

lemma field_at_Cons_list: "field_at (JList ys) k v \<Longrightarrow> field_at (JList (y # ys)) k v"
  by (cases rule: field_at.cases) (auto intro: field_at.intros)

lemma set_listed_sub:
  "x \<in> set (listed key d) \<longrightarrow> (\<exists>k xs. field_at d k (JList xs) \<and> lower k = key \<and> x \<in> set xs)"
  "x \<in> set (listed_items key kvs) \<longrightarrow> (\<exists>k xs. field_at (JDict kvs) k (JList xs) \<and> lower k = key \<and> x \<in> set xs)"
  "x \<in> set (listed_list key ys) \<longrightarrow> (\<exists>k xs. field_at (JList ys) k (JList xs) \<and> lower k = key \<and> x \<in> set xs)"
proof (induct key d and key kvs and key ys rule: listed_listed_items_listed_list.induct)
  case (8 key k v kvs)
  show ?case
  proof
    assume "x \<in> set (listed_items key ((k, v) # kvs))"
    then consider
        (a) "lower k = key" "x \<in> set (elements v)"
      | (b) "x \<in> set (listed key v)"
      | (c) "x \<in> set (listed_items key kvs)"
      by (auto split: if_splits)
    then show "\<exists>k' xs. field_at (JDict ((k, v) # kvs)) k' (JList xs) \<and> lower k' = key \<and> x \<in> set xs"
    proof cases
      case a
      then obtain xs where "v = JList xs" "x \<in> set xs" by (cases v) auto
      then have "field_at (JDict ((k, v) # kvs)) k (JList xs)" by (auto intro: field_at.here)
      then show ?thesis using a(1) \<open>x \<in> set xs\<close> by blast
    next
      case b
      with 8(1) obtain k' xs where f: "field_at v k' (JList xs)" "lower k' = key" "x \<in> set xs" by blast
      have "field_at (JDict ((k, v) # kvs)) k' (JList xs)"
        by (rule field_at.in_dict[of k v]) (simp_all add: f)
      then show ?thesis using f by blast
    next
      case c
      with 8(2) obtain k' xs where f: "field_at (JDict kvs) k' (JList xs)" "lower k' = key" "x \<in> set xs" by blast
      then show ?thesis using field_at_Cons_dict by blast
    qed
  qed
next
  case (10 key y ys)
  show ?case
  proof
    assume "x \<in> set (listed_list key (y # ys))"
    then consider (a) "x \<in> set (listed key y)" | (b) "x \<in> set (listed_list key ys)" by auto
    then show "\<exists>k' xs. field_at (JList (y # ys)) k' (JList xs) \<and> lower k' = key \<and> x \<in> set xs"
    proof cases
      case a
      with 10(1) obtain k' xs where f: "field_at y k' (JList xs)" "lower k' = key" "x \<in> set xs" by blast
      have "field_at (JList (y # ys)) k' (JList xs)"
        by (rule field_at.in_list[of y]) (simp_all add: f)
      then show ?thesis using f by blast
    next
      case b
      with 10(2) obtain k' xs where f: "field_at (JList ys) k' (JList xs)" "lower k' = key" "x \<in> set xs" by blast
      then show ?thesis using field_at_Cons_list by blast
    qed
  qed
qed auto

lemma listed_items_mem:
  "(k, v) \<in> set kvs \<Longrightarrow> set (listed key v) \<subseteq> set (listed_items key kvs)"
  by (induction kvs) auto

lemma listed_items_here:
  "(k, JList xs) \<in> set kvs \<Longrightarrow> lower k = key \<Longrightarrow> set xs \<subseteq> set (listed_items key kvs)"
  by (induction kvs) auto

lemma listed_list_mem: "y \<in> set ys \<Longrightarrow> set (listed key y) \<subseteq> set (listed_list key ys)"
  by (induction ys) auto

lemma set_listed_sup:
  "field_at d k (JList xs) \<Longrightarrow> set xs \<subseteq> set (listed (lower k) d)"
proof (induction d k "JList xs" rule: field_at.induct)
  case (here k kvs)
  then show ?case using listed_items_here[of k xs kvs "lower k"] by simp
next
  case (in_dict k' d kvs k)
  then show ?case using listed_items_mem[of k' d kvs "lower k"] by auto
next
  case (in_list d ys k)
  then show ?case using listed_list_mem[of d ys "lower k"] by auto
qed

lemma set_listed:
  "set (listed key d) = {x. \<exists>k xs. field_at d k (JList xs) \<and> lower k = key \<and> x \<in> set xs}"
  using set_listed_sub(1)[of _ key d] set_listed_sup[of d] by auto

text \<open>
  Counting the call depth changes nothing for a document that fits into the frames
  that are left, and a traversal that succeeds returns what the uncounted one
  returns.
\<close>

lemma depth_pos: "0 < depth d"
  by (cases d) simp_all

lemma visit_item_within_eq: "left \<noteq> 0 \<Longrightarrow> visit_item_within left k v st = visit_item k v st"
  by (cases st; cases v) (simp_all add: visit_item_within_def visit_item_def update_within_def)

lemma recurse_within_enough:
  "depth d \<le> frames \<longrightarrow> recurse_within frames d st = recurse d st"
  "depth_items kvs \<le> left \<longrightarrow> recurse_items_within left kvs st = recurse_items kvs st"
  "depth_list xs \<le> left \<longrightarrow> recurse_list_within left xs st = recurse_list xs st"
proof (induct frames d st and left kvs st and left xs st
       rule: recurse_within_recurse_items_within_recurse_list_within.induct)
  case (1 frames kvs st)
  then show ?case by auto
next
  case (2 frames xs st)
  then show ?case by auto
next
  case (8 left k v kvs st)
  show ?case
  proof
    assume le: "depth_items ((k, v) # kvs) \<le> left"
    then have dv: "depth v \<le> left" and dk: "depth_items kvs \<le> left" by simp_all
    from dv depth_pos[of v] have nz: "left \<noteq> 0" by linarith
    have vi: "visit_item_within left k v st = visit_item k v st"
      by (rule visit_item_within_eq[OF nz])
    show "recurse_items_within left ((k, v) # kvs) st = recurse_items ((k, v) # kvs) st"
    proof (cases "visit_item k v st")
      case (Inl e)
      with vi show ?thesis by simp
    next
      case (Inr st1)
      with vi have v1: "visit_item_within left k v st = Inr st1" by simp
      from 8(1)[OF v1] dv have rv: "recurse_within left v st1 = recurse v st1" by simp
      show ?thesis
      proof (cases "recurse v st1")
        case (Inl e)
        with rv vi Inr show ?thesis by simp
      next
        case inner: (Inr st2)
        with rv have r2: "recurse_within left v st1 = Inr st2" by simp
        from 8(2)[OF v1 r2] dk have "recurse_items_within left kvs st2 = recurse_items kvs st2"
          by simp
        with rv vi Inr inner show ?thesis by simp
      qed
    qed
  qed
next
  case (10 left x xs st)
  show ?case
  proof
    assume le: "depth_list (x # xs) \<le> left"
    then have dx: "depth x \<le> left" and dr: "depth_list xs \<le> left" by simp_all
    from 10(1) dx have rx: "recurse_within left x st = recurse x st" by simp
    show "recurse_list_within left (x # xs) st = recurse_list (x # xs) st"
    proof (cases "recurse x st")
      case (Inl e)
      with rx show ?thesis by simp
    next
      case (Inr st1)
      with rx have r1: "recurse_within left x st = Inr st1" by simp
      from 10(2)[OF r1] dr have "recurse_list_within left xs st1 = recurse_list xs st1" by simp
      with rx Inr show ?thesis by simp
    qed
  qed
qed auto

lemma extract_within_enough:
  "depth d \<le> frames \<Longrightarrow> extract_within frames d = extract_allergies_preferences d"
  by (simp add: extract_within_def extract_allergies_preferences_def recurse_within_enough)

lemma update_within_Inr:
  "update_within left f xs acc = Inr acc' \<Longrightarrow> update_from f xs acc = Inr acc'"
  by (simp add: update_within_def split: if_splits)

lemma visit_item_within_Inr:
  assumes "visit_item_within left k v st = Inr st1"
  shows "visit_item k v st = Inr st1"
proof (cases "left = 0")
  case False
  with assms show ?thesis by (simp add: visit_item_within_eq)
next
  case True
  obtain A P where st: "st = (A, P)" by (cases st)
  have no_update: "\<not> (is_list v \<and> (lower k = ''allergies'' \<or> lower k = ''preferences''))"
  proof
    assume "is_list v \<and> (lower k = ''allergies'' \<or> lower k = ''preferences'')"
    then obtain xs where "v = JList xs" "lower k = ''allergies'' \<or> lower k = ''preferences''"
      by (cases v) auto
    with True have "visit_item_within left k v st = Inl RecursionError"
      by (auto simp: visit_item_within_def update_within_def st)
    with assms show False by simp
  qed
  then have "visit_item_within left k v st = visit_item k v st"
    by (cases v) (auto simp: visit_item_within_def visit_item_def st)
  with assms show ?thesis by simp
qed

lemma recurse_within_Inr:
  "recurse_within frames d st = Inr st' \<longrightarrow> recurse d st = Inr st'"
  "recurse_items_within left kvs st = Inr st' \<longrightarrow> recurse_items kvs st = Inr st'"
  "recurse_list_within left xs st = Inr st' \<longrightarrow> recurse_list xs st = Inr st'"
proof (induct frames d st and left kvs st and left xs st arbitrary: st' and st' and st'
       rule: recurse_within_recurse_items_within_recurse_list_within.induct)
  case (1 frames kvs st)
  then show ?case by (auto split: if_splits)
next
  case (2 frames xs st)
  then show ?case by (auto split: if_splits)
next
  case (8 left k v kvs st)
  show ?case
  proof
    assume a: "recurse_items_within left ((k, v) # kvs) st = Inr st'"
    then obtain st1 where v1: "visit_item_within left k v st = Inr st1"
      by (cases "visit_item_within left k v st") simp_all
    with a obtain st2 where r2: "recurse_within left v st1 = Inr st2"
      by (cases "recurse_within left v st1") simp_all
    with a v1 have r3: "recurse_items_within left kvs st2 = Inr st'" by simp
    from visit_item_within_Inr[OF v1] 8(1)[OF v1, of st2] r2 8(2)[OF v1 r2, of st'] r3
    show "recurse_items ((k, v) # kvs) st = Inr st'" by simp
  qed
next
  case (10 left x xs st)
  show ?case
  proof
    assume a: "recurse_list_within left (x # xs) st = Inr st'"
    then obtain st1 where r1: "recurse_within left x st = Inr st1"
      by (cases "recurse_within left x st") simp_all
    with a have r2: "recurse_list_within left xs st1 = Inr st'" by simp
    from 10(1)[of st1] r1 10(2)[OF r1, of st'] r2
    show "recurse_list (x # xs) st = Inr st'" by simp
  qed
qed (auto split: if_splits)

lemma extract_within_Inr:
  "extract_within frames d = Inr r \<Longrightarrow> extract_allergies_preferences d = Inr r"
  by (simp add: extract_within_def extract_allergies_preferences_def recurse_within_Inr)

lemma depth_append:
  "depth_items (kvs @ kvs') = max (depth_items kvs) (depth_items kvs')"
  "depth_list (xs @ ys) = max (depth_list xs) (depth_list ys)"
  by (induction kvs, auto) (induction xs, auto)

lemma depth_wrap: "depth (wrap ls d) = length ls + depth d"
  by (induction ls d rule: wrap.induct) simp_all

lemma shuffled_depth: "shuffled d d' \<Longrightarrow> depth d' = depth d"
proof (induction rule: shuffled.induct)
  case (swap_dict kvs p q kvs')
  obtain k1 v1 k2 v2 where "p = (k1, v1)" "q = (k2, v2)" by (cases p; cases q) blast
  then show ?case by (simp add: depth_append max.left_commute)
qed (simp_all add: depth_append max.left_commute)

text \<open>
  Claim C7, as the code has it. Putting a profile document under additional layers
  of lists and dicts leaves the outcome of the extraction (the two sets, or the
  exception) unchanged when the layers add depth only (\<open>neutral\<close>: no dict layer
  keyed \<^verbatim>\<open>allergies\<close> or \<^verbatim>\<open>preferences\<close> directly around a list) and the wrapped
  document still fits into the frames that are left. Reordering the entries of the
  containers of a document that fits leaves the outcome unchanged as well.
\<close>

theorem extraction_nesting_and_order:
  "(neutral ls d \<and> length ls + depth d \<le> frames
      \<longrightarrow> extract_within frames (wrap ls d) = extract_within frames d)
   \<and> (shuffled d d' \<and> depth d \<le> frames
      \<longrightarrow> extract_within frames d' = extract_within frames d)"
proof (intro conjI impI)
  assume a: "neutral ls d \<and> length ls + depth d \<le> frames"
  then have "depth (wrap ls d) \<le> frames" "depth d \<le> frames" by (simp_all add: depth_wrap)
  then have "extract_within frames (wrap ls d) = extract_allergies_preferences (wrap ls d)"
    and "extract_within frames d = extract_allergies_preferences d"
    by (simp_all add: extract_within_enough)
  with a show "extract_within frames (wrap ls d) = extract_within frames d"
    by (simp add: extract_absorb listed_wrap)
next
  assume a: "shuffled d d' \<and> depth d \<le> frames"
  then have s: "shuffled d d'" and dd: "depth d \<le> frames" by simp_all
  from shuffled_depth[OF s] dd have "depth d' \<le> frames" by simp
  with dd have "depth d \<le> frames" "depth d' \<le> frames" by simp_all
  then have w: "extract_within frames d' = extract_allergies_preferences d'"
      "extract_within frames d = extract_allergies_preferences d"
    by (simp_all add: extract_within_enough)
  have "extract_allergies_preferences d' = extract_allergies_preferences d"
    unfolding extract_absorb
    using shuffled_listed[OF s, of "''allergies''"] shuffled_listed[OF s, of "''preferences''"]
    by (intro absorb_cong) (simp_all add: same_strings_def)
  with w show "extract_within frames d' = extract_within frames d" by simp
qed

theorem extraction_nesting_and_order_witness:
  "neutral [InDict ''data'', InList, InDict ''Allergies'']
      (JDict [(''allergies'', JList [JStr ''Peanuts'', JStr ''Soy'']), (''preferences'', JList [JStr ''Organic''])])
   \<and> length [InDict ''data'', InList, InDict ''Allergies'']
        + depth (JDict [(''allergies'', JList [JStr ''Peanuts'', JStr ''Soy'']), (''preferences'', JList [JStr ''Organic''])])
       \<le> 1000
   \<and> shuffled
      (JDict [(''allergies'', JList [JStr ''Peanuts'', JStr ''Soy'']), (''preferences'', JList [JStr ''Organic''])])
      (JDict [(''preferences'', JList [JStr ''Organic'']), (''allergies'', JList [JStr ''Soy'', JStr ''Peanuts''])])
   \<and> extract_within 1000
        (wrap [InDict ''data'', InList, InDict ''Allergies'']
          (JDict [(''allergies'', JList [JStr ''Peanuts'', JStr ''Soy'']), (''preferences'', JList [JStr ''Organic''])]))
      = Inr ({''peanuts'', ''soy''}, {''organic''})
   \<and> extract_within 1000
        (JDict [(''preferences'', JList [JStr ''Organic'']), (''allergies'', JList [JStr ''Soy'', JStr ''Peanuts''])])
      = Inr ({''peanuts'', ''soy''}, {''organic''})"
proof -
  let ?A = "(''allergies'', JList [JStr ''Peanuts'', JStr ''Soy''])"
  let ?A' = "(''allergies'', JList [JStr ''Soy'', JStr ''Peanuts''])"
  let ?P = "(''preferences'', JList [JStr ''Organic''])"
  let ?D = "JDict [?A, ?P]"
  let ?D' = "JDict [?P, ?A']"
  let ?LS = "[InDict ''data'', InList, InDict ''Allergies'']"
  have n: "neutral ?LS ?D" by code_simp
  have dw: "length ?LS + depth ?D \<le> 1000" by simp
  have dd: "depth ?D \<le> 1000" by simp
  have "shuffled (JDict ([] @ ?A # ?P # [])) (JDict ([] @ ?P # ?A # []))" by (rule shuffled.swap_dict)
  then have s1: "shuffled ?D (JDict [?P, ?A])" by simp
  have "shuffled (JList ([] @ JStr ''Peanuts'' # JStr ''Soy'' # [])) (JList ([] @ JStr ''Soy'' # JStr ''Peanuts'' # []))"
    by (rule shuffled.swap_list)
  then have "shuffled (JDict ([?P] @ (''allergies'', JList ([] @ JStr ''Peanuts'' # JStr ''Soy'' # [])) # []))
                      (JDict ([?P] @ (''allergies'', JList ([] @ JStr ''Soy'' # JStr ''Peanuts'' # [])) # []))"
    by (rule shuffled.inside_dict)
  then have s2: "shuffled (JDict [?P, ?A]) ?D'" by simp
  have s: "shuffled ?D ?D'" by (rule shuffled.step[OF s1 s2])
  have e: "extract_within 1000 ?D = Inr ({''peanuts'', ''soy''}, {''organic''})" by code_simp
  from extraction_nesting_and_order[of ?LS ?D 1000 ?D'] n dw s dd e show ?thesis
    by (simp only: simp_thms)
qed

text \<open>
  Claim C7 as it is worded, for every wrapping, fails in three ways. A list document
  \<^verbatim>\<open>["Organic"]\<close> put under the key \<^verbatim>\<open>Preferences\<close> becomes a preference list. The
  document \<^verbatim>\<open>{"allergies": ["peanuts"]}\<close> put into a list under the key
  \<^verbatim>\<open>allergies\<close> makes the extraction raise \<^verbatim>\<open>AttributeError\<close>. And with three
  frames left the same document is extracted, but not under two more list layers.
\<close>

theorem extraction_wrapping_counterexample:
  "extract_within 1000 (wrap [InDict ''Preferences''] (JList [JStr ''Organic'']))
     \<noteq> extract_within 1000 (JList [JStr ''Organic''])
   \<and> extract_within 1000 (wrap [InDict ''allergies'', InList] (JDict [(''allergies'', JList [JStr ''peanuts''])]))
     \<noteq> extract_within 1000 (JDict [(''allergies'', JList [JStr ''peanuts''])])
   \<and> extract_within 3 (wrap [InList, InList] (JDict [(''allergies'', JList [JStr ''peanuts''])]))
     \<noteq> extract_within 3 (JDict [(''allergies'', JList [JStr ''peanuts''])])"
  by code_simp




text \<open>
  Claim C9. The extraction is meant never to raise, whatever the document. On
  \<^verbatim>\<open>{"allergies": [1]}\<close> it raises \<^verbatim>\<open>AttributeError\<close>: the value is a list, so the
  guard lets it through, and the number has no \<^verbatim>\<open>lower\<close>.
\<close>

theorem extraction_raises_on_non_string_element:
  "extract_allergies_preferences (JDict [(''allergies'', JList [JNum 1])]) = Inl AttributeError"
  by code_simp

text \<open>With no list under either key, both sets come back empty.\<close>

lemma extraction_of_no_fields:
  "listed ''allergies'' d = [] \<Longrightarrow> listed ''preferences'' d = []
   \<Longrightarrow> extract_allergies_preferences d = Inr ({}, {})"
  by (simp add: extract_absorb absorb_def)

text \<open>
  The same two facts with the call depth counted: a document that fits into the
  frames that are left is extracted as above, and the number in the allergy list
  makes the extraction raise \<^verbatim>\<open>AttributeError\<close> there as well.
\<close>

lemma extraction_within_collects:
  assumes "list_all is_str (listed ''allergies'' d)" and "list_all is_str (listed ''preferences'' d)"
    and "depth d \<le> frames"
  shows "extract_within frames d =
           Inr (set (map clean_allergy (strings_of (listed ''allergies'' d))),
                set (map lower (strings_of (listed ''preferences'' d))))"
  using assms by (simp add: extract_within_enough extract_absorb absorb_def)

lemma extraction_within_raises_on_non_string:
  "3 \<le> frames \<Longrightarrow> extract_within frames (JDict [(''allergies'', JList [JNum 1])]) = Inl AttributeError"
proof -
  assume "3 \<le> frames"
  then have "depth (JDict [(''allergies'', JList [JNum 1])]) \<le> frames" by simp
  then have "extract_within frames (JDict [(''allergies'', JList [JNum 1])])
               = extract_allergies_preferences (JDict [(''allergies'', JList [JNum 1])])"
    by (rule extract_within_enough)
  also have "\<dots> = Inl AttributeError" by code_simp
  finally show ?thesis .
qed

section \<open>Properties of cart processing\<close>

lemma scan_allergens_Some:
  "scan_allergens fz ad a gs = Some r \<Longrightarrow> \<exists>g\<in>set gs. risk_match fz ad a g \<and> r = risk_reason g a"
  by (induction gs) (auto split: if_splits)

lemma scan_allergens_None:
  "scan_allergens fz ad a gs = None \<longleftrightarrow> \<not> list_ex (risk_match fz ad a) gs"
  by (induction gs) auto

lemma scan_allergies_Some:
  "scan_allergies fz ad as gs = Some r
     \<Longrightarrow> \<exists>a\<in>set as. \<exists>g\<in>set gs. risk_match fz ad a g \<and> r = risk_reason g a"
proof (induction as)
  case Nil
  then show ?case by simp
next
  case (Cons a as)
  show ?case
  proof (cases "scan_allergens fz ad a gs")
    case None
    with Cons show ?thesis by auto
  next
    case (Some r')
    with Cons.prems have "r' = r" by simp
    with Some scan_allergens_Some[of fz ad a gs r] show ?thesis by auto
  qed
qed

lemma scan_allergies_None:
  "scan_allergies fz ad as gs = None \<longleftrightarrow> \<not> list_ex (\<lambda>a. list_ex (risk_match fz ad a) gs) as"
proof (induction as)
  case Nil
  show ?case by simp
next
  case (Cons a as)
  show ?case
  proof (cases "scan_allergens fz ad a gs")
    case None
    with Cons scan_allergens_None[of fz ad a gs] show ?thesis by simp
  next
    case (Some r)
    then have "scan_allergens fz ad a gs \<noteq> None" by simp
    then have "list_ex (risk_match fz ad a) gs" by (simp add: scan_allergens_None)
    with Some show ?thesis by simp
  qed
qed

lemma contains_self: "contains pat (pre @ pat @ post)"
proof (induction pre)
  case Nil
  have "prefix pat (pat @ post)" by simp
  then show ?case by (cases "pat @ post") auto
next
  case (Cons c pre)
  then show ?case by simp
qed

lemma risk_reason_mentions: "contains allergen (risk_reason allergen allergy)"
  unfolding risk_reason_def by (rule contains_self)

lemma list_ex_cong_set: "set xs = set ys \<Longrightarrow> list_ex P xs = list_ex P ys"
  by (simp add: list_ex_iff)

text \<open>
  The loop body, read off by cases on the resolved product: flagged and in the
  substitution table, flagged only, warned, or none of these.
\<close>

lemma classify_item_cases:
  assumes "resolve fz (products_list tb) (lower item) = Inr r"
  shows "classify_item fz tb allergies preferences item =
     (if flagged fz tb allergies r then
        (case substitutions tb (lower item) of
           Some s \<Rightarrow> Inr \<lparr>original = item, status = Substituted,
                          safeAlternative = Some (safeAlt s), reason = alt_reason s\<rparr>
         | None \<Rightarrow> Inr \<lparr>original = item, status = Risk, safeAlternative = None,
                         reason = the (scan_allergies fz (allergen_dict tb) allergies
                                         (allergens_of (the r)))\<rparr>)
      else if (case r of None \<Rightarrow> False
               | Some p \<Rightarrow> list_ex (\<lambda>pref. pref_hit pref (allergens_of p) (lower item)) preferences)
      then Inr \<lparr>original = item, status = Warn, safeAlternative = None, reason = warn_reason item\<rparr>
      else Inr \<lparr>original = item, status = Safe, safeAlternative = None, reason = []\<rparr>)"
proof (cases r)
  case None
  with assms show ?thesis by (simp add: classify_item_def flagged_def)
next
  case (Some p)
  note r = this
  show ?thesis
  proof (cases "scan_allergies fz (allergen_dict tb) allergies (allergens_of p)")
    case None
    then have "\<not> flagged fz tb allergies r" using r by (simp add: flagged_def scan_allergies_None)
    with None r assms show ?thesis by (simp add: classify_item_def)
  next
    case (Some reason')
    then have "scan_allergies fz (allergen_dict tb) allergies (allergens_of p) \<noteq> None" by simp
    then have "flagged fz tb allergies r" using r by (simp add: flagged_def scan_allergies_None)
    with Some r assms show ?thesis
      by (simp add: classify_item_def split: option.splits)
  qed
qed

lemma classify_item_error:
  "resolve fz (products_list tb) (lower item) = Inl e
     \<Longrightarrow> classify_item fz tb allergies preferences item = Inl e"
  by (simp add: classify_item_def)

lemma flagged_cong_set:
  "set as = set as' \<Longrightarrow> flagged fz tb as r = flagged fz tb as' r"
  by (cases r) (simp_all add: flagged_def list_ex_iff)

lemma iteration_order_ascending: "iteration_order ascending"
  by (simp add: iteration_order_def ascending_def)

lemma iteration_order_descending: "iteration_order descending"
  by (simp add: iteration_order_def descending_def)

lemma risk_match_spec: "risk_match fz ad a g = spec_match fz ad a g"
  by (auto simp: risk_match_def spec_match_def list_ex_iff)

lemma scan_allergens_first:
  "scan_allergens fz ad a gs = Some r
     \<Longrightarrow> \<exists>j<length gs. spec_match fz ad a (gs ! j)
            \<and> (\<forall>j'<j. \<not> spec_match fz ad a (gs ! j')) \<and> r = risk_reason (gs ! j) a"
proof (induction gs)
  case Nil
  then show ?case by simp
next
  case (Cons g gs)
  show ?case
  proof (cases "spec_match fz ad a g")
    case True
    with Cons.prems have "r = risk_reason g a" by (simp add: risk_match_spec)
    with True show ?thesis by (intro exI[of _ 0]) simp
  next
    case False
    with Cons.prems have "scan_allergens fz ad a gs = Some r" by (simp add: risk_match_spec)
    from Cons.IH[OF this] obtain j where j: "j < length gs" "spec_match fz ad a (gs ! j)"
      "\<forall>j'<j. \<not> spec_match fz ad a (gs ! j')" "r = risk_reason (gs ! j) a"
      by blast
    have "\<forall>j'<Suc j. \<not> spec_match fz ad a ((g # gs) ! j')"
    proof (intro allI impI)
      fix j' assume "j' < Suc j"
      then show "\<not> spec_match fz ad a ((g # gs) ! j')"
        using False j(3) by (cases j') simp_all
    qed
    with j show ?thesis by (intro exI[of _ "Suc j"]) simp
  qed
qed

lemma scan_allergens_None_nth:
  "scan_allergens fz ad a gs = None \<Longrightarrow> j < length gs \<Longrightarrow> \<not> spec_match fz ad a (gs ! j)"
  by (simp add: scan_allergens_None list_ex_iff risk_match_spec)

lemma scan_allergies_first:
  "scan_allergies fz ad as gs = Some r \<Longrightarrow> names_first_match fz ad as gs r"
proof (induction as)
  case Nil
  then show ?case by simp
next
  case (Cons a as)
  show ?case
  proof (cases "scan_allergens fz ad a gs")
    case (Some r')
    with Cons.prems have "r' = r" by simp
    with Some scan_allergens_first[of fz ad a gs r] obtain j where
      "j < length gs" "spec_match fz ad a (gs ! j)"
      "\<forall>j'<j. \<not> spec_match fz ad a (gs ! j')" "r = risk_reason (gs ! j) a"
      by blast
    then have "first_match fz ad (a # as) gs 0 j \<and> r = risk_reason (gs ! j) ((a # as) ! 0)"
      by (simp add: first_match_def)
    then show ?thesis unfolding names_first_match_def by blast
  next
    case None
    with Cons.prems have "scan_allergies fz ad as gs = Some r" by simp
    from Cons.IH[OF this] obtain i j where ij: "first_match fz ad as gs i j"
      "r = risk_reason (gs ! j) (as ! i)"
      unfolding names_first_match_def by blast
    have "\<forall>i'<Suc i. \<forall>j'<length gs. \<not> spec_match fz ad ((a # as) ! i') (gs ! j')"
    proof (intro allI impI)
      fix i' j' assume "i' < Suc i" "j' < length gs"
      then show "\<not> spec_match fz ad ((a # as) ! i') (gs ! j')"
        using ij(1) scan_allergens_None_nth[OF None] by (cases i') (simp_all add: first_match_def)
    qed
    with ij have "first_match fz ad (a # as) gs (Suc i) j
        \<and> r = risk_reason (gs ! j) ((a # as) ! Suc i)"
      by (simp add: first_match_def)
    then show ?thesis unfolding names_first_match_def by blast
  qed
qed

lemma flagged_scan:
  "flagged fz tb as (Some p)
     \<Longrightarrow> \<exists>r. scan_allergies fz (allergen_dict tb) as (allergens_of p) = Some r"
  by (cases "scan_allergies fz (allergen_dict tb) as (allergens_of p)")
     (simp_all add: flagged_def scan_allergies_None)

lemma first_match_same_reason:
  assumes f: "first_match fz ad as gs i j" and f': "first_match fz ad as' gs i' j'"
    and s: "set as = set as'"
    and u: "\<forall>a\<in>set as. \<forall>b\<in>set as.
              (\<exists>g\<in>set gs. spec_match fz ad a g) \<and> (\<exists>g\<in>set gs. spec_match fz ad b g) \<longrightarrow> a = b"
  shows "risk_reason (gs ! j) (as ! i) = risk_reason (gs ! j') (as' ! i')"
proof -
  from f have a: "as ! i \<in> set as" "gs ! j \<in> set gs" "spec_match fz ad (as ! i) (gs ! j)"
    by (simp_all add: first_match_def)
  from f' s have b: "as' ! i' \<in> set as" "gs ! j' \<in> set gs" "spec_match fz ad (as' ! i') (gs ! j')"
    by (simp_all add: first_match_def)
  from u a b have eq: "as ! i = as' ! i'" by blast
  have "\<not> j < j'" using f' a(3) eq by (auto simp: first_match_def)
  moreover have "\<not> j' < j" using f b(3) eq by (auto simp: first_match_def)
  ultimately have "j = j'" by simp
  with eq show ?thesis by simp
qed

lemma agree_same: "status e \<noteq> Risk \<Longrightarrow> agree fz tb as as' e e"
  by (simp add: agree_def)

lemma classify_item_agree:
  assumes "set as = set as'" and "set ps = set ps'"
  shows "rel_sum (=) (agree fz tb as as')
           (classify_item fz tb as ps item) (classify_item fz tb as' ps' item)"
proof (cases "resolve fz (products_list tb) (lower item)")
  case (Inl e)
  then show ?thesis by (simp add: classify_item_error)
next
  case (Inr r)
  have fl: "flagged fz tb as r = flagged fz tb as' r"
    by (rule flagged_cong_set[OF assms(1)])
  have w: "list_ex P ps = list_ex P ps'" for P
    by (rule list_ex_cong_set[OF assms(2)])
  show ?thesis
  proof (cases "flagged fz tb as r \<and> substitutions tb (lower item) = None")
    case False
    then show ?thesis
      unfolding classify_item_cases[OF Inr]
      by (auto simp: fl[symmetric] w agree_same split: option.splits)
  next
    case True
    then have F: "flagged fz tb as r" "flagged fz tb as' r"
      and N: "substitutions tb (lower item) = None"
      using fl by simp_all
    from F(1) obtain p where p: "r = Some p" by (cases r) (simp_all add: flagged_def)
    let ?gs = "allergens_of p"
    from flagged_scan F p obtain x x' where
      x: "scan_allergies fz (allergen_dict tb) as ?gs = Some x"
      and x': "scan_allergies fz (allergen_dict tb) as' ?gs = Some x'"
      by blast
    from scan_allergies_first[OF x] scan_allergies_first[OF x']
    have n: "names_first_match fz (allergen_dict tb) as ?gs x"
      and n': "names_first_match fz (allergen_dict tb) as' ?gs x'"
      by simp_all
    have "(\<forall>a\<in>set as. \<forall>b\<in>set as.
              (\<exists>g\<in>set ?gs. spec_match fz (allergen_dict tb) a g)
              \<and> (\<exists>g\<in>set ?gs. spec_match fz (allergen_dict tb) b g) \<longrightarrow> a = b)
          \<longrightarrow> x = x'"
    proof
      assume u: "\<forall>a\<in>set as. \<forall>b\<in>set as.
              (\<exists>g\<in>set ?gs. spec_match fz (allergen_dict tb) a g)
              \<and> (\<exists>g\<in>set ?gs. spec_match fz (allergen_dict tb) b g) \<longrightarrow> a = b"
      from n n' obtain i j i' j' where
        "first_match fz (allergen_dict tb) as ?gs i j" "x = risk_reason (?gs ! j) (as ! i)"
        "first_match fz (allergen_dict tb) as' ?gs i' j'" "x' = risk_reason (?gs ! j') (as' ! i')"
        unfolding names_first_match_def by blast
      with first_match_same_reason[OF _ _ assms(1) u] show "x = x'" by simp
    qed
    with n n' Inr p have
      "agree fz tb as as'
         \<lparr>original = item, status = Risk, safeAlternative = None, reason = x\<rparr>
         \<lparr>original = item, status = Risk, safeAlternative = None, reason = x'\<rparr>"
      unfolding agree_def by simp
    with F N x x' p show ?thesis
      unfolding classify_item_cases[OF Inr] by simp
  qed
qed

lemma classify_all_agree:
  assumes "set as = set as'" and "set ps = set ps'"
  shows "rel_sum (=) (list_all2 (agree fz tb as as'))
           (classify_all fz tb as ps items) (classify_all fz tb as' ps' items)"
proof (induction items)
  case Nil
  show ?case by simp
next
  case (Cons x items)
  show ?case
  proof (cases x)
    case (JStr item)
    from classify_item_agree[OF assms, of fz tb item] Cons.IH
    show ?thesis
      unfolding JStr
      by (cases "classify_item fz tb as ps item"; cases "classify_item fz tb as' ps' item";
          cases "classify_all fz tb as ps items"; cases "classify_all fz tb as' ps' items")
         simp_all
  qed simp_all
qed

lemma extracted_sets_finite:
  "extract_within frames profile = Inr (A, P) \<Longrightarrow> finite A \<and> finite P"
  using extract_within_Inr[of frames profile "(A, P)"]
  by (auto simp: extract_absorb absorb_def split: if_splits)

text \<open>
  Claim C1, as the code has it. An item that resolves to a product one of whose
  allergens, lower-cased, equals an allergy of the profile is classified \<open>Risk\<close>,
  unless its lower-cased name is a key of the substitution table, which makes it
  \<open>Substituted\<close>. The reason of the \<open>Risk\<close> entry names the allergen and the
  allergy of the first pair that matches (by equality, synonym table or fuzzy
  score), allergies in the order in which the set is iterated and allergens in the
  order of the product's list. That pair is the equal pair or one before it: the
  reason names the equal allergen unless an earlier pair matches as well.
\<close>

theorem exact_allergen_match_is_risk:
  assumes "resolve fz (products_list tb) (lower item) = Inr (Some p)"
    and "i0 < length allergies"
    and "j0 < length (allergens_of p)"
    and "allergies ! i0 = lower (allergens_of p ! j0)"
  shows "\<exists>e. classify_item fz tb allergies preferences item = Inr e \<and> original e = item \<and>
           (case substitutions tb (lower item) of
              Some s \<Rightarrow> status e = Substituted
            | None \<Rightarrow>
                status e = Risk \<and>
                (\<exists>i j. first_match fz (allergen_dict tb) allergies (allergens_of p) i j
                    \<and> (i < i0 \<or> i = i0 \<and> j \<le> j0)
                    \<and> reason e = risk_reason (allergens_of p ! j) (allergies ! i)
                    \<and> contains (allergens_of p ! j) (reason e)))"
proof -
  let ?gs = "allergens_of p"
  let ?ad = "allergen_dict tb"
  have m: "spec_match fz ?ad (allergies ! i0) (?gs ! j0)"
    using assms(4) by (simp add: spec_match_def)
  with assms(2,3) have fl: "flagged fz tb allergies (Some p)"
    unfolding flagged_def list_ex_iff risk_match_spec by (auto intro: nth_mem)
  from flagged_scan[OF fl] obtain r where
    r: "scan_allergies fz ?ad allergies ?gs = Some r" by blast
  from scan_allergies_first[OF r] obtain i j where
    f: "first_match fz ?ad allergies ?gs i j" and rr: "r = risk_reason (?gs ! j) (allergies ! i)"
    unfolding names_first_match_def by blast
  have "\<not> i0 < i" using f m assms(3) by (auto simp: first_match_def)
  moreover have "i = i0 \<longrightarrow> \<not> j0 < j" using f m by (auto simp: first_match_def)
  ultimately have before: "i < i0 \<or> i = i0 \<and> j \<le> j0" by linarith
  show ?thesis
  proof (cases "substitutions tb (lower item)")
    case None
    with fl r f rr before risk_reason_mentions[of "?gs ! j" "allergies ! i"] show ?thesis
      by (auto simp: classify_item_cases[OF assms(1)])
  next
    case (Some s)
    with fl show ?thesis by (simp add: classify_item_cases[OF assms(1)])
  qed
qed

theorem exact_allergen_match_is_risk_witness:
  "resolve sample_fuzzy (products_list sample_tables) (lower ''Latte'')
     = Inr (Some \<lparr>name = ''Latte'', sku = ''P2'', allergens = Some [''Milk'', ''Soy'']\<rparr>)
   \<and> (1::nat) < length [''eggs'', ''milk'']
   \<and> (0::nat) < length (allergens_of \<lparr>name = ''Latte'', sku = ''P2'', allergens = Some [''Milk'', ''Soy'']\<rparr>)
   \<and> [''eggs'', ''milk''] ! 1
       = lower (allergens_of \<lparr>name = ''Latte'', sku = ''P2'', allergens = Some [''Milk'', ''Soy'']\<rparr> ! 0)
   \<and> (\<exists>e. classify_item sample_fuzzy sample_tables [''eggs'', ''milk''] [] ''Latte'' = Inr e
          \<and> status e = Risk \<and> reason e = risk_reason ''Milk'' ''milk'')"
proof -
  let ?p = "\<lparr>name = ''Latte'', sku = ''P2'', allergens = Some [''Milk'', ''Soy'']\<rparr>"
  let ?as = "[''eggs'', ''milk'']"
  have h1: "resolve sample_fuzzy (products_list sample_tables) (lower ''Latte'') = Inr (Some ?p)"
    by code_simp
  have h2: "(1::nat) < length ?as" by simp
  have h3: "(0::nat) < length (allergens_of ?p)" by code_simp
  have h4: "?as ! 1 = lower (allergens_of ?p ! 0)" by code_simp
  have n: "substitutions sample_tables (lower ''Latte'') = None" by code_simp
  have g0: "allergens_of ?p ! 0 = ''Milk''" by code_simp
  have len: "length (allergens_of ?p) = 2" by code_simp
  have e0: "\<not> spec_match sample_fuzzy (allergen_dict sample_tables) (?as ! 0) (allergens_of ?p ! 0)"
    by code_simp
  have e1: "\<not> spec_match sample_fuzzy (allergen_dict sample_tables) (?as ! 0) (allergens_of ?p ! 1)"
    by code_simp
  from exact_allergen_match_is_risk[OF h1 h2 h3 h4, of "[]"] n
  obtain e i j where e: "classify_item sample_fuzzy sample_tables ?as [] ''Latte'' = Inr e"
      "status e = Risk"
      "first_match sample_fuzzy (allergen_dict sample_tables) ?as (allergens_of ?p) i j"
      "i < 1 \<or> i = 1 \<and> j \<le> 0"
      "reason e = risk_reason (allergens_of ?p ! j) (?as ! i)"
    by auto
  have "i \<noteq> 0"
  proof
    assume "i = 0"
    with e(3) len have "j < 2" "spec_match sample_fuzzy (allergen_dict sample_tables) (?as ! 0)
                                  (allergens_of ?p ! j)"
      by (simp_all add: first_match_def)
    then have "j = 0 \<or> j = 1" by linarith
    with \<open>spec_match sample_fuzzy (allergen_dict sample_tables) (?as ! 0) (allergens_of ?p ! j)\<close>
      e0 e1 show False by auto
  qed
  with e(4) have i: "i = 1" and j: "j = 0" by auto
  from e(5) i j g0 have "reason e = risk_reason ''Milk'' ''milk''" by simp
  with e(1,2) h1 h2 h3 h4 show ?thesis by blast
qed

text \<open>
  Claim C1 as it is worded, with a reason that mentions the equal allergen, fails
  when another pair matches first: the allergies \<^verbatim>\<open>soy\<close>, \<^verbatim>\<open>milk\<close> in this order and a
  product with the allergens \<^verbatim>\<open>["Milk", "Soy"]\<close>. The allergen \<^verbatim>\<open>Milk\<close> equals the
  allergy \<^verbatim>\<open>milk\<close>, and the reason names \<^verbatim>\<open>Soy\<close> only.
\<close>

theorem risk_reason_names_first_match_only:
  "resolve sample_fuzzy (products_list sample_tables) (lower ''Latte'')
     = Inr (Some \<lparr>name = ''Latte'', sku = ''P2'', allergens = Some [''Milk'', ''Soy'']\<rparr>)
   \<and> ''Milk'' \<in> set (allergens_of \<lparr>name = ''Latte'', sku = ''P2'', allergens = Some [''Milk'', ''Soy'']\<rparr>)
   \<and> ''milk'' \<in> set [''soy'', ''milk'']
   \<and> ''milk'' = lower ''Milk''
   \<and> classify_item sample_fuzzy sample_tables [''soy'', ''milk''] [] ''Latte''
       = Inr \<lparr>original = ''Latte'', status = Risk, safeAlternative = None,
              reason = ''Contains Soy, which matches your allergy or restriction: soy.''\<rparr>
   \<and> \<not> contains ''Milk'' ''Contains Soy, which matches your allergy or restriction: soy.''"
  by code_simp

text \<open>
  When the fuzzy matcher returns a candidate that scores 80 or less, an item whose
  lower-cased name is not a key of the catalog is classified \<open>Safe\<close>, with no
  alternative and an empty reason, whatever the allergies and preferences are.
\<close>

lemma unresolved_item_is_safe:
  assumes "products (products_list tb) (lower item) = None"
    and "extractOne fz (lower item) (product_names (products_list tb)) = Some (best_match, score)"
    and "score \<le> 80"
  shows "classify_item fz tb allergies preferences item =
           Inr \<lparr>original = item, status = Safe, safeAlternative = None, reason = []\<rparr>"
proof -
  from assms have "resolve fz (products_list tb) (lower item) = Inr None"
    by (simp add: resolve_def)
  from classify_item_cases[OF this] show ?thesis by (simp add: flagged_def)
qed

text \<open>
  When the matcher has no candidate to return, as for an empty catalog, the
  classification raises \<^verbatim>\<open>TypeError\<close> at the unpacking of line 230.
\<close>

lemma no_candidate_raises:
  assumes "products (products_list tb) (lower item) = None"
    and "extractOne fz (lower item) (product_names (products_list tb)) = None"
  shows "classify_item fz tb allergies preferences item = Inl TypeError"
  using assms by (simp add: classify_item_def resolve_def)

text \<open>
  Claim C2. An item that is not in the catalog is meant to be classified \<open>Safe\<close>.
  With the empty catalog, the one that \<^verbatim>\<open>main.py\<close> itself writes when
  \<^verbatim>\<open>utils/products.json\<close> does not exist, no name is a key and nothing scores above
  80, yet the classification raises \<^verbatim>\<open>TypeError\<close> instead of returning \<open>Safe\<close>.
\<close>

theorem empty_catalog_item_raises:
  "classify_item sample_fuzzy \<lparr>products_list = [], allergen_dict = [], substitutions = Map.empty\<rparr>
       [''milk''] [] ''Bread''
     = Inl TypeError"
  by code_simp

text \<open>
  Claim C3. For an item that is classified, the status is \<open>Substituted\<close> exactly when
  the item was flagged and its lower-cased name is a key of the substitution table
  (looked up as it is, with no fuzzy matching); the alternative is then the entry's
  \<^verbatim>\<open>safeAlt\<close>. A flagged item whose name is not a key stays \<open>Risk\<close>, and an item that
  was not flagged is \<open>Safe\<close> or \<open>Warn\<close>; neither has an alternative.
\<close>

theorem substituted_iff_flagged_and_key:
  assumes "resolve fz (products_list tb) (lower item) = Inr r"
  shows "\<exists>e. classify_item fz tb allergies preferences item = Inr e \<and>
           (status e = Substituted \<longleftrightarrow>
              flagged fz tb allergies r \<and> lower item \<in> dom (substitutions tb)) \<and>
           (status e = Substituted \<longrightarrow>
              safeAlternative e = map_option safeAlt (substitutions tb (lower item))) \<and>
           (flagged fz tb allergies r \<and> lower item \<notin> dom (substitutions tb) \<longrightarrow>
              status e = Risk \<and> safeAlternative e = None) \<and>
           (\<not> flagged fz tb allergies r \<longrightarrow>
              (status e = Safe \<or> status e = Warn) \<and> safeAlternative e = None)"
  unfolding classify_item_cases[OF assms]
  by (cases "substitutions tb (lower item)") (auto simp: dom_def)

theorem substituted_iff_flagged_and_key_witness:
  "resolve sample_fuzzy (products_list sample_tables) (lower ''Peanut Butter'')
     = Inr (Some \<lparr>name = ''Peanut Butter'', sku = ''P1'', allergens = Some [''Peanuts'']\<rparr>)
   \<and> flagged sample_fuzzy sample_tables [''peanuts'']
        (Some \<lparr>name = ''Peanut Butter'', sku = ''P1'', allergens = Some [''Peanuts'']\<rparr>)
   \<and> lower ''Peanut Butter'' \<in> dom (substitutions sample_tables)
   \<and> (\<exists>e. classify_item sample_fuzzy sample_tables [''peanuts''] [] ''Peanut Butter'' = Inr e
          \<and> status e = Substituted \<and> safeAlternative e = Some ''Sunflower Seed Butter'')"
proof -
  let ?p = "\<lparr>name = ''Peanut Butter'', sku = ''P1'', allergens = Some [''Peanuts'']\<rparr>"
  have h: "resolve sample_fuzzy (products_list sample_tables) (lower ''Peanut Butter'') = Inr (Some ?p)"
    by code_simp
  have f: "flagged sample_fuzzy sample_tables [''peanuts''] (Some ?p)" by code_simp
  have s: "substitutions sample_tables (lower ''Peanut Butter'')
             = Some \<lparr>safeAlt = ''Sunflower Seed Butter'', alt_reason = ''Nut-free spread''\<rparr>"
    by code_simp
  then have k: "lower ''Peanut Butter'' \<in> dom (substitutions sample_tables)" by (simp add: dom_def)
  from substituted_iff_flagged_and_key[OF h, of "[''peanuts'']" "[]"] f k s
  have "\<exists>e. classify_item sample_fuzzy sample_tables [''peanuts''] [] ''Peanut Butter'' = Inr e
          \<and> status e = Substituted \<and> safeAlternative e = Some ''Sunflower Seed Butter''"
    by auto
  with h f k show ?thesis by blast
qed

text \<open>
  Claim C6, as the code has it. Whatever the order in which the two sets are
  iterated, the request fails with the same exception or returns carts of the same
  length whose entries agree on the original name, the status and the alternative,
  and on the reason too unless the status is \<open>Risk\<close>. The reason of a \<open>Risk\<close> entry
  names the first matching pair in the iteration order of its own run, and the two
  reasons agree whenever at most one allergy of the profile matches an allergen of
  the product (\<open>agree\<close>).
\<close>

theorem cart_independent_of_set_order:
  assumes "iteration_order iter" and "iteration_order iter'"
  shows "case extract_within frames profile of
           Inl err \<Rightarrow>
             process_cart iter frames fz tb shopping_list profile = Inl err
             \<and> process_cart iter' frames fz tb shopping_list profile = Inl err
         | Inr (allergies, preferences) \<Rightarrow>
             rel_sum (=) (list_all2 (agree fz tb (iter allergies) (iter' allergies)))
               (process_cart iter frames fz tb shopping_list profile)
               (process_cart iter' frames fz tb shopping_list profile)"
proof (cases "extract_within frames profile")
  case (Inl e)
  then show ?thesis by (simp add: process_cart_def)
next
  case (Inr st)
  obtain A P where st: "st = (A, P)" by (cases st)
  with Inr extracted_sets_finite[of frames profile A P] have fin: "finite A" "finite P" by simp_all
  with assms have "set (iter A) = set (iter' A)" "set (iter P) = set (iter' P)"
    by (simp_all add: iteration_order_def)
  from classify_all_agree[OF this] Inr st show ?thesis by (simp add: process_cart_def)
qed

theorem cart_independent_of_set_order_witness:
  "iteration_order ascending \<and> iteration_order descending
   \<and> rel_sum (=) (list_all2 (agree sample_fuzzy sample_tables
                                 (ascending {''soy'', ''milk'', ''peanuts''})
                                 (descending {''soy'', ''milk'', ''peanuts''})))
        (process_cart ascending 1000 sample_fuzzy sample_tables
           [JStr ''Latte'', JDict [(''name'', JStr ''peanut butter'')], JStr ''Bread'']
           (JDict [(''allergies'', JList [JStr ''Soy'', JStr ''milk'', JStr ''Peanuts allergy''])]))
        (process_cart descending 1000 sample_fuzzy sample_tables
           [JStr ''Latte'', JDict [(''name'', JStr ''peanut butter'')], JStr ''Bread'']
           (JDict [(''allergies'', JList [JStr ''Soy'', JStr ''milk'', JStr ''Peanuts allergy''])]))"
proof -
  let ?profile = "JDict [(''allergies'', JList [JStr ''Soy'', JStr ''milk'', JStr ''Peanuts allergy''])]"
  have e: "extract_within 1000 ?profile = Inr ({''soy'', ''milk'', ''peanuts''}, {})"
    by code_simp
  from cart_independent_of_set_order[OF iteration_order_ascending iteration_order_descending,
         where frames = 1000 and profile = ?profile and fz = sample_fuzzy and tb = sample_tables] e
       iteration_order_ascending iteration_order_descending
  show ?thesis by simp
qed

text \<open>
  Claim C6 as it is worded, with identical reasons, fails when two allergies match:
  for the profile \<^verbatim>\<open>{"allergies": ["milk", "soy"]}\<close> and a product with the allergens
  \<^verbatim>\<open>["Milk", "Soy"]\<close> the reason names milk when the set is iterated milk first and
  soy when it is iterated soy first. (Within one interpreter process a set of
  these strings is iterated the same way every time; between two processes the
  order can differ.)
\<close>

theorem cart_reason_depends_on_set_order:
  "process_cart ascending 1000 sample_fuzzy sample_tables [JStr ''Latte'']
       (JDict [(''allergies'', JList [JStr ''milk'', JStr ''soy''])])
     \<noteq> process_cart descending 1000 sample_fuzzy sample_tables [JStr ''Latte'']
       (JDict [(''allergies'', JList [JStr ''milk'', JStr ''soy''])])"
  by code_simp

section \<open>Properties of the store selection\<close>

lemma best_store_loop_snoc:
  "best_store_loop (xs @ [(nm, info)]) cart_skus st =
     (case best_store_loop xs cart_skus st of
        (best_store, best_count, packed) \<Rightarrow>
          if int (length (packed_here info cart_skus)) > best_count
          then (Some nm, int (length (packed_here info cart_skus)), packed_here info cart_skus)
          else (best_store, best_count, packed))"
proof (induction xs arbitrary: st)
  case Nil
  obtain bs bc pk where "st = (bs, bc, pk)" by (cases st)
  then show ?case by simp
next
  case (Cons a xs)
  obtain nm' info' where a: "a = (nm', info')" by (cases a)
  obtain bs bc pk where st: "st = (bs, bc, pk)" by (cases st)
  show ?case unfolding a st by (simp add: Cons.IH)
qed

lemma best_store_loop_selects: "xs \<noteq> [] \<Longrightarrow> \<exists>i. selected xs cart_skus i"
proof (induction xs rule: rev_induct)
  case Nil
  then show ?case by simp
next
  case (snoc x xs)
  obtain nm info where x: "x = (nm, info)" by (cases x)
  let ?c = "int (length (packed_here info cart_skus))"
  show ?case
  proof (cases "xs = []")
    case True
    then have "selected (xs @ [x]) cart_skus 0"
      by (simp add: selected_def x coverage_def)
    then show ?thesis ..
  next
    case False
    with snoc.IH obtain i where i: "selected xs cart_skus i" by blast
    then have il: "i < length xs" by (simp add: selected_def)
    have nth_old: "(xs @ [x]) ! j = xs ! j" if "j < length xs" for j
      using that by (simp add: nth_append)
    have nth_new: "(xs @ [x]) ! length xs = x" by simp
    have cx: "coverage x cart_skus = ?c" by (simp add: coverage_def x)
    show ?thesis
    proof (cases "?c > coverage (xs ! i) cart_skus")
      case True
      have "selected (xs @ [x]) cart_skus (length xs)"
        unfolding selected_def
      proof (intro conjI allI impI)
        show "length xs < length (xs @ [x])" by simp
        show "best_store_loop (xs @ [x]) cart_skus (None, - 1, [])
                = (Some (fst ((xs @ [x]) ! length xs)), coverage ((xs @ [x]) ! length xs) cart_skus,
                   packed_here (snd ((xs @ [x]) ! length xs)) cart_skus)"
          using i True by (simp add: selected_def x best_store_loop_snoc coverage_def)
      next
        fix j assume "j < length (xs @ [x])"
        then consider "j < length xs" | "j = length xs" by fastforce
        then show "coverage ((xs @ [x]) ! j) cart_skus \<le> coverage ((xs @ [x]) ! length xs) cart_skus"
        proof cases
          case 1
          with i have "coverage (xs ! j) cart_skus \<le> coverage (xs ! i) cart_skus"
            by (simp add: selected_def)
          with True 1 cx show ?thesis by (simp add: nth_old)
        next
          case 2
          then show ?thesis by simp
        qed
      next
        fix j assume j: "j < length xs"
        with i have "coverage (xs ! j) cart_skus \<le> coverage (xs ! i) cart_skus"
          by (simp add: selected_def)
        with True j cx show "coverage ((xs @ [x]) ! j) cart_skus < coverage ((xs @ [x]) ! length xs) cart_skus"
          by (simp add: nth_old)
      qed
      then show ?thesis ..
    next
      case False
      have "selected (xs @ [x]) cart_skus i"
        unfolding selected_def
      proof (intro conjI allI impI)
        show "i < length (xs @ [x])" using il by simp
        show "best_store_loop (xs @ [x]) cart_skus (None, - 1, [])
                = (Some (fst ((xs @ [x]) ! i)), coverage ((xs @ [x]) ! i) cart_skus,
                   packed_here (snd ((xs @ [x]) ! i)) cart_skus)"
          using i False il by (simp add: selected_def x best_store_loop_snoc nth_append)
      next
        fix j assume "j < length (xs @ [x])"
        then consider "j < length xs" | "j = length xs" by fastforce
        then show "coverage ((xs @ [x]) ! j) cart_skus \<le> coverage ((xs @ [x]) ! i) cart_skus"
        proof cases
          case 1
          with i il show ?thesis by (simp add: selected_def nth_old)
        next
          case 2
          with False cx il show ?thesis by (simp add: nth_old)
        qed
      next
        fix j assume "j < i"
        with i il show "coverage ((xs @ [x]) ! j) cart_skus < coverage ((xs @ [x]) ! i) cart_skus"
          by (simp add: selected_def nth_old)
      qed
      then show ?thesis ..
    qed
  qed
qed



text \<open>
  The selection for a store map with distinct keys (a dict) none of which is the
  empty string: a store is reported, and the cart SKUs it stocks and the ones it
  lacks are the packed and the missing SKUs.
\<close>

lemma pickup_suggestion_named:
  assumes "STORES \<noteq> []" and "distinct (map fst STORES)" and "[] \<notin> fst ` set STORES"
  shows "\<exists>i<length STORES.
           pickup_suggestion STORES cart_skus =
             Inr \<lparr>store = Some (fst (STORES ! i)),
                  packed_skus = filter (\<lambda>sku. sku \<in> set (availableSKUs (snd (STORES ! i)))) cart_skus,
                  missing_skus = filter (\<lambda>sku. sku \<notin> set (availableSKUs (snd (STORES ! i)))) cart_skus\<rparr>"
proof -
  from best_store_loop_selects[OF assms(1), of cart_skus] obtain i where i: "selected STORES cart_skus i"
    by blast
  then have il: "i < length STORES" by (simp add: selected_def)
  then have mem: "(fst (STORES ! i), snd (STORES ! i)) \<in> set STORES" by simp
  with assms(3) have nonempty: "fst (STORES ! i) \<noteq> []" by force
  from mem assms(2) have look: "map_of STORES (fst (STORES ! i)) = Some (snd (STORES ! i))"
    by simp
  from i have "pickup_suggestion STORES cart_skus =
             Inr \<lparr>store = Some (fst (STORES ! i)),
                  packed_skus = filter (\<lambda>sku. sku \<in> set (availableSKUs (snd (STORES ! i)))) cart_skus,
                  missing_skus = filter (\<lambda>sku. sku \<notin> set (availableSKUs (snd (STORES ! i)))) cart_skus\<rparr>"
    by (simp add: selected_def pickup_suggestion_def truthy_def nonempty look packed_here_def)
  with il show ?thesis by blast
qed

lemma pickup_suggestion_partition:
  assumes "STORES \<noteq> []" and "distinct (map fst STORES)" and "[] \<notin> fst ` set STORES"
  shows "\<exists>r. pickup_suggestion STORES cart_skus = Inr r \<and> store r \<noteq> None
           \<and> set (packed_skus r) \<inter> set (missing_skus r) = {}
           \<and> set (packed_skus r) \<union> set (missing_skus r) = set cart_skus"
proof -
  from pickup_suggestion_named[OF assms, of cart_skus] obtain i where
    "pickup_suggestion STORES cart_skus =
             Inr \<lparr>store = Some (fst (STORES ! i)),
                  packed_skus = filter (\<lambda>sku. sku \<in> set (availableSKUs (snd (STORES ! i)))) cart_skus,
                  missing_skus = filter (\<lambda>sku. sku \<notin> set (availableSKUs (snd (STORES ! i)))) cart_skus\<rparr>"
    by blast
  then show ?thesis by auto
qed

lemma pickup_suggestion_no_stores:
  "pickup_suggestion [] cart_skus = Inr \<lparr>store = None, packed_skus = [], missing_skus = cart_skus\<rparr>"
  by (simp add: pickup_suggestion_def truthy_def)

text \<open>
  Claim C4. Packed and missing SKUs are meant to split the resolved cart SKUs into
  two disjoint sets. For a store map whose selected store has the empty string as
  its name the test \<^verbatim>\<open>if best_store:\<close> fails although a store was selected: the
  packed SKUs are those of the selected store, and the missing SKUs are the whole
  cart, so \<^verbatim>\<open>P1\<close> is in both.
\<close>

theorem packed_and_missing_overlap_for_unnamed_store:
  "pickup_suggestion unnamed_store [''P1'', ''P2'']
     = Inr \<lparr>store = None, packed_skus = [''P1''], missing_skus = [''P1'', ''P2'']\<rparr>"
  by code_simp

text \<open>
  Claim C10. A non-empty store map is meant to yield a store always. When the
  first store of maximal coverage has the empty string as its name, as here in
  front of the three sample stores, the same test reports no store.
\<close>

theorem no_store_reported_for_unnamed_store:
  "pickup_suggestion (([], \<lparr>availableSKUs = [''P1'', ''P2'']\<rparr>) # sample_stores) [''P1'', ''P2'']
     = Inr \<lparr>store = None, packed_skus = [''P1'', ''P2''], missing_skus = [''P1'', ''P2'']\<rparr>"
  by code_simp


end
